theory Spec2Isabelle
  imports Complex_Main "HOL-Library.Multiset"
begin

section \<open>Numbers, vectors and matrices\<close>

text \<open>
  The C++ type \<open>real\<close> (a binary floating-point type) is modelled by the real numbers:
  rounding, infinities and NaN are outside the model. Where the source divides by a count
  that can be zero, the model stops with \<open>NotANumber\<close> instead of inventing a value.
  \<open>Count\<close> and \<open>Index\<close> (unsigned 64-bit) are natural numbers and \<open>Identifier\<close> is an
  integer; no claim depends on their wrap-around.

  A dense Eigen object is the function from its indices to its coefficients, \<open>M i j\<close>
  for \<open>M(i,j)\<close>; \<open>v 0\<close>, \<open>v 1\<close>, \<open>v 2\<close> are \<open>v.x()\<close>, \<open>v.y()\<close>, \<open>v.z()\<close>.
\<close>

type_synonym Count = nat
type_synonym Identifier = int
type_synonym Vector = "nat \<Rightarrow> real"
type_synonym Matrix = "nat \<Rightarrow> nat \<Rightarrow> real"

datatype error = AssertionFailed | OutOfRange | UndefinedBehaviour | NotANumber

section \<open>Map entities\<close>

record Landmark =
  landmark_identifier :: Identifier
  coordinates :: Vector
  areCoordinatesValidated :: bool

text \<open>A local map, as far as the relocalizer reads it: its appearances (matchables).\<close>

record 'a LocalMap =
  local_map_identifier :: Identifier
  appearances :: "'a list"

section \<open>Relocalizer\<close>

subsection \<open>Data\<close>

text \<open>\<open>HBSTTree::Match\<close>: the landmarks the two matched descriptors belong to.\<close>

record Match =
  object_query :: Landmark
  object_reference :: Landmark
  distance :: real

text \<open>\<open>Closure::Candidate\<close>, \<open>Closure::Correspondence\<close> and \<open>Closure\<close>.\<close>

record Candidate =
  candidate_query :: Landmark
  candidate_reference :: Landmark
  candidate_distance :: real

record Correspondence =
  query :: Landmark
  reference :: Landmark
  matching_count :: Count
  matching_ratio :: real

record 'a Closure =
  local_map_query :: "'a LocalMap"
  local_map_reference :: "'a LocalMap"
  absolute_number_of_matches :: Count
  relative_number_of_matches :: real
  correspondences :: "Correspondence list"

record RelocalizerParameters =
  preliminary_minimum_interspace_queries :: Count
  preliminary_minimum_matching_ratio :: real
  minimum_number_of_matched_landmarks :: Count
  minimum_matches_per_correspondence :: Count
  maximum_descriptor_distance :: nat

text \<open>
  Modelled from the spec: the place database (\<open>HBSTTree\<close>, an external collaborator whose
  code is not part of the sources). It is the sequence of descriptor sets indexed so far;
  \<open>add\<close> and \<open>matchAndAdd\<close> each index one more, \<open>size()\<close> is their number, and the
  matching itself is a parameter \<open>matchAndAdd\<close> of the model: from the database, the
  query's appearances and the distance threshold to the \<open>MatchVectorMap\<close>, a finite map
  from the index of a reference local map to its matches.

  \<open>getchar_calls\<close> counts the executions of \<open>getchar()\<close>, each of which waits for
  a byte on the standard input. The diagnostic output on \<open>std::cerr\<close>, the chronometer and
  the descriptor-merge bookkeeping (compiled only under \<open>SRRG_MERGE_DESCRIPTORS\<close>) are
  not modelled. Assertions are modelled as enabled.
\<close>

type_synonym 'a PlaceDatabase = "'a list list"
type_synonym MatchVectorMap = "nat \<rightharpoonup> Match list"
type_synonym 'a Matcher = "'a PlaceDatabase \<Rightarrow> 'a list \<Rightarrow> nat \<Rightarrow> MatchVectorMap"
type_synonym CandidateMap = "(Identifier \<times> Candidate list) list"

record 'a Relocalizer =
  added_local_maps :: "'a LocalMap list"
  place_database :: "'a PlaceDatabase"
  closures :: "'a Closure list"
  mask_id_references_for_correspondences :: "Identifier set"
  getchar_calls :: nat

text \<open>The state the constructor and \<open>configure\<close> leave.\<close>

definition Relocalizer_constructed :: "'a Relocalizer" where
  "Relocalizer_constructed =
     \<lparr>added_local_maps = [], place_database = [], closures = [],
      mask_id_references_for_correspondences = {}, getchar_calls = 0\<rparr>"

definition clear :: "'a Relocalizer \<Rightarrow> 'a Relocalizer" where
  "clear s = s\<lparr>closures := [], mask_id_references_for_correspondences := {}\<rparr>"

subsection \<open>Correspondence resolution\<close>

text \<open>
  The loop of \<open>_getCorrespondenceNN\<close> over the candidates, on the triple of the multiset
  \<open>counts\<close>, \<open>match_best\<close> (\<open>None\<close> for \<open>nullptr\<close>) and \<open>count_best\<close>.
\<close>

type_synonym votes = "Identifier multiset \<times> Candidate option \<times> Count"

fun count_votes :: "Identifier set \<Rightarrow> Candidate list \<Rightarrow> votes \<Rightarrow> votes" where
  "count_votes msk [] st = st"
| "count_votes msk (m # ms) (counts, match_best, count_best) =
     (if landmark_identifier (candidate_reference m) \<notin> msk then
        (let counts' = add_mset (landmark_identifier (candidate_reference m)) counts;
             count_current = count counts' (landmark_identifier (candidate_reference m))
         in if count_best < count_current
            then count_votes msk ms (counts', Some m, count_current)
            else count_votes msk ms (counts', match_best, count_best))
      else count_votes msk ms (counts, match_best, count_best))"

definition getCorrespondenceNN ::
  "RelocalizerParameters \<Rightarrow> Candidate list \<Rightarrow> Identifier set \<Rightarrow>
   error + (Correspondence option \<times> Identifier set)" where
  "getCorrespondenceNN P matches msk =
     (if matches = [] then Inl AssertionFailed
      else
        (case count_votes msk matches ({#}, None, 0) of
           (counts, match_best, count_best) \<Rightarrow>
             (case match_best of
                None \<Rightarrow> Inr (None, msk)
              | Some mb \<Rightarrow>
                  if count_best > minimum_matches_per_correspondence P
                  then Inr (Some \<lparr>query = candidate_query mb,
                                  reference = candidate_reference mb,
                                  matching_count = count_best,
                                  matching_ratio = real count_best / real (length matches)\<rparr>,
                            insert (landmark_identifier (candidate_reference mb)) msk)
                  else Inr (None, msk))))"

subsection \<open>Closure detection\<close>

text \<open>
  \<open>Closure::CandidateMap\<close> is a \<open>std::map\<close>: an association list kept in ascending key order,
  which is the order the resolution loop visits it in. \<open>candidate_map_add\<close> is the
  \<open>try { at(k).push_back(c) } catch { insert(k, {c}) }\<close> of the grouping loop.
\<close>

fun candidate_map_add :: "Identifier \<Rightarrow> Candidate \<Rightarrow> CandidateMap \<Rightarrow> CandidateMap" where
  "candidate_map_add k c [] = [(k, [c])]"
| "candidate_map_add k c ((k', cs) # m) =
     (if k = k' then (k', cs @ [c]) # m
      else if k < k' then (k, [c]) # (k', cs) # m
      else (k', cs) # candidate_map_add k c m)"

fun group_matches :: "Match list \<Rightarrow> CandidateMap \<Rightarrow> CandidateMap" where
  "group_matches [] multiple_matches_per_landmark = multiple_matches_per_landmark"
| "group_matches (match # rest) multiple_matches_per_landmark =
     group_matches rest
       (candidate_map_add (landmark_identifier (object_query match))
          \<lparr>candidate_query = object_query match,
           candidate_reference = object_reference match,
           candidate_distance = distance match\<rparr>
          multiple_matches_per_landmark)"

fun resolve_correspondences ::
  "RelocalizerParameters \<Rightarrow> CandidateMap \<Rightarrow> Correspondence list \<Rightarrow> Identifier set \<Rightarrow>
   error + (Correspondence list \<times> Identifier set)" where
  "resolve_correspondences P [] cs msk = Inr (cs, msk)"
| "resolve_correspondences P (multiple_matches # rest) cs msk =
     (case getCorrespondenceNN P (snd multiple_matches) msk of
        Inl e \<Rightarrow> Inl e
      | Inr (None, msk') \<Rightarrow> resolve_correspondences P rest cs msk'
      | Inr (Some correspondence, msk') \<Rightarrow>
          resolve_correspondences P rest (cs @ [correspondence]) msk')"

text \<open>The body of the loop over the reference local maps, for one index.\<close>

definition evaluate_reference ::
  "RelocalizerParameters \<Rightarrow> 'a LocalMap \<Rightarrow> MatchVectorMap \<Rightarrow> nat \<Rightarrow> 'a Relocalizer \<Rightarrow>
   error + 'a Relocalizer" where
  "evaluate_reference P query_map matches_per_reference_image index_reference_local_map s =
     (case matches_per_reference_image index_reference_local_map of
        None \<Rightarrow> Inl OutOfRange
      | Some multiple_matches_mixed \<Rightarrow>
          let number_of_query_matchables = length (appearances query_map) in
          if number_of_query_matchables = 0 then Inl NotANumber
          else
            let ratio_of_matches =
                  real (length multiple_matches_mixed) / real number_of_query_matchables in
            if ratio_of_matches < preliminary_minimum_matching_ratio P then Inr s
            else if length (added_local_maps s) \<le> index_reference_local_map
            then Inl UndefinedBehaviour
            else
              let multiple_matches_per_landmark = group_matches multiple_matches_mixed [] in
              if length multiple_matches_per_landmark < minimum_number_of_matched_landmarks P
              then Inr s
              else
                (case resolve_correspondences P multiple_matches_per_landmark [] {} of
                   Inl e \<Rightarrow> Inl e
                 | Inr (resolved, msk) \<Rightarrow>
                     Inr (s\<lparr>closures := closures s @
                              [\<lparr>local_map_query = query_map,
                                local_map_reference =
                                  added_local_maps s ! index_reference_local_map,
                                absolute_number_of_matches = length multiple_matches_per_landmark,
                                relative_number_of_matches = ratio_of_matches,
                                correspondences = resolved\<rparr>],
                            mask_id_references_for_correspondences := msk,
                            getchar_calls := getchar_calls s + 1\<rparr>)))"

fun evaluate_references ::
  "RelocalizerParameters \<Rightarrow> 'a LocalMap \<Rightarrow> MatchVectorMap \<Rightarrow> nat list \<Rightarrow> 'a Relocalizer \<Rightarrow>
   error + 'a Relocalizer" where
  "evaluate_references P q matches [] s = Inr s"
| "evaluate_references P q matches (index # rest) s =
     (case evaluate_reference P q matches index s of
        Inl e \<Rightarrow> Inl e
      | Inr s' \<Rightarrow> evaluate_references P q matches rest s')"

definition detectClosures ::
  "'a Matcher \<Rightarrow> RelocalizerParameters \<Rightarrow> 'a LocalMap option \<Rightarrow> 'a Relocalizer \<Rightarrow>
   error + 'a Relocalizer" where
  "detectClosures matchAndAdd P query_map s =
     (case query_map of
        None \<Rightarrow> Inr s
      | Some q \<Rightarrow>
          let s1 = s\<lparr>added_local_maps := added_local_maps s @ [q]\<rparr> in
          if length (place_database s1) < preliminary_minimum_interspace_queries P
          then Inr (s1\<lparr>place_database := place_database s1 @ [appearances q]\<rparr>)
          else
            let matches_per_reference_image =
                  matchAndAdd (place_database s1) (appearances q) (maximum_descriptor_distance P);
                s2 = s1\<lparr>place_database := place_database s1 @ [appearances q]\<rparr>;
                maximum_index_reference =
                  length (place_database s2) - preliminary_minimum_interspace_queries P
            in evaluate_references P q matches_per_reference_image
                 [0..<maximum_index_reference] s2)"

section \<open>Alignment engine (UVDAligner)\<close>

subsection \<open>Eigen operations\<close>

text \<open>
  The operations of the Eigen library that the aligner uses, on coefficient functions. A
  matrix or vector is zero outside its dimensions. Every product in the aligner has inner
  dimension three. \<open>matrix_scale k M\<close> is \<open>M *= k\<close> and \<open>k * M\<close>; \<open>block r c M\<close> reads and
  \<open>set_block r c B M\<close> writes \<open>M.block<3,3>(r,c)\<close>.
\<close>

definition matrix_zero :: Matrix where
  "matrix_zero = (\<lambda>i j. 0)"

definition vector_zero :: Vector where
  "vector_zero = (\<lambda>i. 0)"

definition matrix_identity :: "nat \<Rightarrow> Matrix" where
  "matrix_identity n = (\<lambda>i j. if i = j \<and> i < n then 1 else 0)"

definition matrix_scale :: "real \<Rightarrow> Matrix \<Rightarrow> Matrix" where
  "matrix_scale k M = (\<lambda>i j. k * M i j)"

definition matrix_add :: "Matrix \<Rightarrow> Matrix \<Rightarrow> Matrix" where
  "matrix_add A B = (\<lambda>i j. A i j + B i j)"

definition matrix_subtract :: "Matrix \<Rightarrow> Matrix \<Rightarrow> Matrix" where
  "matrix_subtract A B = (\<lambda>i j. A i j - B i j)"

definition matrix_transpose :: "Matrix \<Rightarrow> Matrix" where
  "matrix_transpose M = (\<lambda>i j. M j i)"

definition matrix_product :: "Matrix \<Rightarrow> Matrix \<Rightarrow> Matrix" where
  "matrix_product A B = (\<lambda>i j. A i 0 * B 0 j + A i 1 * B 1 j + A i 2 * B 2 j)"

definition matrix_vector :: "Matrix \<Rightarrow> Vector \<Rightarrow> Vector" where
  "matrix_vector A v = (\<lambda>i. A i 0 * v 0 + A i 1 * v 1 + A i 2 * v 2)"

definition vector_add :: "Vector \<Rightarrow> Vector \<Rightarrow> Vector" where
  "vector_add u v = (\<lambda>i. u i + v i)"

definition vector_negate :: "Vector \<Rightarrow> Vector" where
  "vector_negate v = (\<lambda>i. - v i)"

definition squared_norm :: "Vector \<Rightarrow> real" where
  "squared_norm e = e 0 * e 0 + e 1 * e 1 + e 2 * e 2"

definition set_coefficient :: "nat \<Rightarrow> nat \<Rightarrow> real \<Rightarrow> Matrix \<Rightarrow> Matrix" where
  "set_coefficient r c v M = (\<lambda>i j. if i = r \<and> j = c then v else M i j)"

definition block :: "nat \<Rightarrow> nat \<Rightarrow> Matrix \<Rightarrow> Matrix" where
  "block r c M = (\<lambda>i j. if i < 3 \<and> j < 3 then M (r + i) (c + j) else 0)"

definition set_block :: "nat \<Rightarrow> nat \<Rightarrow> Matrix \<Rightarrow> Matrix \<Rightarrow> Matrix" where
  "set_block r c B M =
     (\<lambda>i j. if r \<le> i \<and> i < r + 3 \<and> c \<le> j \<and> j < c + 3 then B (i - r) (j - c) else M i j)"

text \<open>
  Modelled from the spec: \<open>skew\<close> (srrg_core, not part of the sources), the skew-symmetric
  cross-product matrix of a 3-vector.
\<close>

definition skew :: "Vector \<Rightarrow> Matrix" where
  "skew v =
     (\<lambda>i j. if i = 0 \<and> j = 1 then - v 2 else if i = 0 \<and> j = 2 then v 1
            else if i = 1 \<and> j = 0 then v 2 else if i = 1 \<and> j = 2 then - v 0
            else if i = 2 \<and> j = 0 then - v 1 else if i = 2 \<and> j = 1 then v 0
            else 0)"

text \<open>
  \<open>TransformMatrix3D\<close> is \<open>Eigen::Transform<real,3,Isometry>\<close>: a linear part and a
  translation. Its inverse is Eigen's for the isometry mode, the transposed linear part.
\<close>

record Transform =
  linear_part :: Matrix
  translation :: Vector

definition transform_point :: "Transform \<Rightarrow> Vector \<Rightarrow> Vector" where
  "transform_point T p = vector_add (matrix_vector (linear_part T) p) (translation T)"

definition transform_compose :: "Transform \<Rightarrow> Transform \<Rightarrow> Transform" where
  "transform_compose A B =
     \<lparr>linear_part = matrix_product (linear_part A) (linear_part B),
      translation = vector_add (matrix_vector (linear_part A) (translation B)) (translation A)\<rparr>"

definition transform_inverse :: "Transform \<Rightarrow> Transform" where
  "transform_inverse T =
     \<lparr>linear_part = matrix_transpose (linear_part T),
      translation =
        vector_negate (matrix_vector (matrix_transpose (linear_part T)) (translation T))\<rparr>"

subsection \<open>Data\<close>

text \<open>
  The camera, frame points and frame as far as the aligner reads and writes them. The
  field \<open>previous\<close> is the world coordinates of the previous frame point, \<open>None\<close> for a
  null link; \<open>landmark\<close> is \<open>None\<close> for a null pointer. The camera's field-of-view
  test is not part of the sources and is a field of the camera.
\<close>

record Camera =
  cameraMatrix :: Matrix
  imageRows :: Count
  imageCols :: Count
  cameraToRobot :: Transform
  robotToCamera :: Transform
  isInFieldOfView :: "Vector \<Rightarrow> bool"

record FramePoint =
  imageCoordinatesLeft :: Vector
  cameraCoordinatesLeft :: Vector
  previous :: "Vector option"
  landmark :: "Landmark option"
  reprojectionCoordinatesLeft :: Vector

record Frame =
  activePoints :: "FramePoint list"
  cameraLeft :: Camera

text \<open>
  The configuration members of the aligner, which \<open>linearize\<close>, \<open>oneRound\<close> and \<open>converge\<close>
  only read, and the members they write.
\<close>

record AlignerParameters =
  weight_framepoint :: real
  maximum_depth_near_meters :: real
  maximum_depth_far_meters :: real
  maximum_error_kernel :: real
  damping :: real
  error_delta_for_convergence :: real
  maximum_number_of_iterations :: Count

record UVDAligner =
  frame :: Frame
  errors :: "real list"
  inliers :: "bool list"
  robot_to_world :: Transform
  world_to_robot :: Transform
  camera_to_world :: Transform
  world_to_camera :: Transform
  camera_matrix :: Matrix
  number_of_rows_image :: Count
  number_of_cols_image :: Count
  H_matrix :: Matrix
  b_vector :: Vector
  omega :: Matrix
  jacobian :: Matrix
  number_of_inliers :: Count
  number_of_outliers :: Count
  total_error :: real
  information_matrix :: Matrix
  has_system_converged :: bool

subsection \<open>initialize\<close>

definition resize :: "nat \<Rightarrow> 'a \<Rightarrow> 'a list \<Rightarrow> 'a list" where
  "resize n v xs = take n xs @ replicate (n - length xs) v"

definition initialize :: "Frame \<Rightarrow> Transform \<Rightarrow> UVDAligner \<Rightarrow> UVDAligner" where
  "initialize frame' robot_to_world' s =
     (let camera_to_world' = transform_compose robot_to_world' (cameraToRobot (cameraLeft frame'))
      in s\<lparr>frame := frame',
            errors := resize (length (activePoints frame')) 0 (errors s),
            inliers := resize (length (activePoints frame')) False (inliers s),
            robot_to_world := robot_to_world',
            world_to_robot := transform_inverse robot_to_world',
            camera_to_world := camera_to_world',
            world_to_camera := transform_inverse camera_to_world',
            camera_matrix := cameraMatrix (cameraLeft frame'),
            number_of_rows_image := imageRows (cameraLeft frame'),
            number_of_cols_image := imageCols (cameraLeft frame')\<rparr>)"

subsection \<open>linearize\<close>

text \<open>\<open>_omega.setIdentity(); _omega(2,2) *= 10;\<close>\<close>

definition omega_initial :: Matrix where
  "omega_initial = set_coefficient 2 2 (matrix_identity 3 2 2 * 10) (matrix_identity 3)"

text \<open>\<open>landmark && landmark->areCoordinatesValidated()\<close>\<close>

definition landmark_validated :: "FramePoint \<Rightarrow> bool" where
  "landmark_validated fp =
     (case landmark fp of None \<Rightarrow> False | Some l \<Rightarrow> areCoordinatesValidated l)"

text \<open>
  The point in the camera frame, from the landmark if it is validated and from the
  previous frame point otherwise.
\<close>

definition predicted_point :: "Transform \<Rightarrow> FramePoint \<Rightarrow> Vector \<Rightarrow> Vector" where
  "predicted_point w2c fp previous_world =
     (case landmark fp of
        None \<Rightarrow> transform_point w2c previous_world
      | Some l \<Rightarrow>
          if areCoordinatesValidated l then transform_point w2c (coordinates l)
          else transform_point w2c previous_world)"

text \<open>
  The homogeneous projection divided by the depth, with the depth restored in the third
  component.
\<close>

definition project :: "Matrix \<Rightarrow> Vector \<Rightarrow> Vector" where
  "project K p = (\<lambda>i. if i = 2 then p 2 else matrix_vector K p i / p 2)"

definition residual :: "Vector \<Rightarrow> FramePoint \<Rightarrow> Vector" where
  "residual predicted_point_in_image fp =
     (\<lambda>i. if i = 0 then predicted_point_in_image 0 - imageCoordinatesLeft fp 0
          else if i = 1 then predicted_point_in_image 1 - imageCoordinatesLeft fp 1
          else if i = 2 then predicted_point_in_image 2 - cameraCoordinatesLeft fp 2
          else 0)"

text \<open>The Jacobian of the transformation, a 3x6 matrix written block by block.\<close>

definition jacobian_transform :: "AlignerParameters \<Rightarrow> Vector \<Rightarrow> Matrix" where
  "jacobian_transform P predicted_point_in_camera =
     set_block 0 3 (matrix_scale (- 2) (skew predicted_point_in_camera))
       (if predicted_point_in_camera 2 < maximum_depth_near_meters P
        then set_block 0 0 (matrix_identity 3) matrix_zero
        else matrix_zero)"

definition jacobian_projection :: "Vector \<Rightarrow> real \<Rightarrow> Matrix" where
  "jacobian_projection predicted_uvd_in_camera depth_meters =
     (let inverse_predicted_d = 1 / depth_meters;
          inverse_predicted_d_squared = inverse_predicted_d * inverse_predicted_d
      in (\<lambda>i j.
            if i = 0 \<and> j = 0 then inverse_predicted_d
            else if i = 0 \<and> j = 2 then - predicted_uvd_in_camera 0 * inverse_predicted_d_squared
            else if i = 1 \<and> j = 1 then inverse_predicted_d
            else if i = 1 \<and> j = 2 then - predicted_uvd_in_camera 1 * inverse_predicted_d_squared
            else if i = 2 \<and> j = 2 then 1
            else 0))"

text \<open>
  The depth-dependent factor of the weight, and the end of the loop body: the total error,
  the Jacobian, the weight and the sums \<open>H\<close> and \<open>b\<close>.
\<close>

definition depth_attenuation :: "AlignerParameters \<Rightarrow> real \<Rightarrow> real" where
  "depth_attenuation P depth_meters =
     (if depth_meters < maximum_depth_near_meters P
      then (maximum_depth_near_meters P - depth_meters) / maximum_depth_near_meters P
      else (maximum_depth_far_meters P - depth_meters) / maximum_depth_far_meters P)"

definition accumulate ::
  "AlignerParameters \<Rightarrow> nat \<Rightarrow> Vector \<Rightarrow> Vector \<Rightarrow> UVDAligner \<Rightarrow> UVDAligner" where
  "accumulate P index_point predicted_point_in_camera err s =
     (let depth_meters = predicted_point_in_camera 2;
          predicted_uvd_in_camera = matrix_vector (camera_matrix s) predicted_point_in_camera;
          jacobian' =
            matrix_product
              (matrix_product (jacobian_projection predicted_uvd_in_camera depth_meters)
                 (camera_matrix s))
              (jacobian_transform P predicted_point_in_camera);
          jacobian_transposed = matrix_transpose jacobian';
          omega' = matrix_scale (depth_attenuation P depth_meters) (omega s)
      in s\<lparr>total_error := total_error s + errors s ! index_point,
            jacobian := jacobian',
            omega := omega',
            H_matrix :=
              matrix_add (H_matrix s)
                (matrix_product (matrix_product jacobian_transposed omega') jacobian'),
            b_vector :=
              vector_add (b_vector s)
                (matrix_vector (matrix_product jacobian_transposed omega') err)\<rparr>)"

text \<open>
  The loop body from the depth test on, for the frame point \<open>fp\<close> at \<open>index_point\<close> and its
  predicted point. The quotient \<open>_maximum_error_kernel/chi\<close> with a zero \<open>chi\<close> (possible
  only under a negative kernel threshold) is not a real number.
\<close>

definition linearize_predicted ::
  "AlignerParameters \<Rightarrow> bool \<Rightarrow> nat \<Rightarrow> FramePoint \<Rightarrow> Vector \<Rightarrow> UVDAligner \<Rightarrow>
   error + UVDAligner" where
  "linearize_predicted P ignore_outliers index_point fp predicted_point_in_camera s =
     (let depth_meters = predicted_point_in_camera 2 in
      if depth_meters \<le> 0 \<or> depth_meters > maximum_depth_far_meters P then Inr s
      else
        let predicted_point_in_image = project (camera_matrix s) predicted_point_in_camera in
        if predicted_point_in_image 0 < 0 \<or>
           predicted_point_in_image 0 > real (number_of_cols_image s) \<or>
           predicted_point_in_image 1 < 0 \<or>
           predicted_point_in_image 1 > real (number_of_rows_image s)
        then Inr s
        else if \<not> isInFieldOfView (cameraLeft (frame s)) predicted_point_in_image
        then Inl AssertionFailed
        else
          let s1 = s\<lparr>frame := (frame s)\<lparr>activePoints :=
                        (activePoints (frame s))
                          [index_point :=
                             fp\<lparr>reprojectionCoordinatesLeft := predicted_point_in_image\<rparr>]\<rparr>\<rparr>;
              err = residual predicted_point_in_image fp;
              chi = squared_norm err;
              s2 = s1\<lparr>errors := (errors s1)[index_point := chi]\<rparr>
          in if chi > maximum_error_kernel P then
               let s3 = s2\<lparr>number_of_outliers := number_of_outliers s2 + 1\<rparr> in
               if ignore_outliers then Inr s3
               else if chi = 0 then Inl NotANumber
               else Inr (accumulate P index_point predicted_point_in_camera err
                           (s3\<lparr>omega := matrix_scale (maximum_error_kernel P / chi) (omega s3)\<rparr>))
             else
               Inr (accumulate P index_point predicted_point_in_camera err
                      (s2\<lparr>inliers := (inliers s2)[index_point := True],
                          number_of_inliers := number_of_inliers s2 + 1\<rparr>)))"

text \<open>
  The loop body for one index. Writing \<open>_errors\<close> or \<open>_inliers\<close> beyond their size is
  undefined behaviour; the two assertions on the frame point come next.
\<close>

definition linearize_point ::
  "AlignerParameters \<Rightarrow> bool \<Rightarrow> nat \<Rightarrow> UVDAligner \<Rightarrow> error + UVDAligner" where
  "linearize_point P ignore_outliers index_point s =
     (if length (errors s) \<le> index_point \<or> length (inliers s) \<le> index_point
      then Inl UndefinedBehaviour
      else
        let s1 = s\<lparr>errors := (errors s)[index_point := - 1],
                   inliers := (inliers s)[index_point := False],
                   omega := omega_initial\<rparr>;
            frame_point = activePoints (frame s) ! index_point
        in if \<not> isInFieldOfView (cameraLeft (frame s)) (imageCoordinatesLeft frame_point)
           then Inl AssertionFailed
           else
             (case previous frame_point of
                None \<Rightarrow> Inl AssertionFailed
              | Some previous_world \<Rightarrow>
                  linearize_predicted P ignore_outliers index_point frame_point
                    (predicted_point (world_to_camera s) frame_point previous_world)
                    (if landmark_validated frame_point then s1
                     else s1\<lparr>omega := matrix_scale (weight_framepoint P) (omega s1)\<rparr>)))"

fun linearize_points ::
  "AlignerParameters \<Rightarrow> bool \<Rightarrow> nat list \<Rightarrow> UVDAligner \<Rightarrow> error + UVDAligner" where
  "linearize_points P ignore_outliers [] s = Inr s"
| "linearize_points P ignore_outliers (index_point # rest) s =
     (case linearize_point P ignore_outliers index_point s of
        Inl e \<Rightarrow> Inl e
      | Inr s' \<Rightarrow> linearize_points P ignore_outliers rest s')"

definition linearize :: "AlignerParameters \<Rightarrow> bool \<Rightarrow> UVDAligner \<Rightarrow> error + UVDAligner" where
  "linearize P ignore_outliers s =
     linearize_points P ignore_outliers [0..<length (activePoints (frame s))]
       (s\<lparr>H_matrix := matrix_zero, b_vector := vector_zero,
          number_of_inliers := 0, number_of_outliers := 0, total_error := 0\<rparr>)"

subsection \<open>oneRound and converge\<close>

text \<open>
  The solver \<open>_H.ldlt().solve\<close> (Eigen) and the retraction \<open>v2t\<close> (srrg_core) are not part
  of the sources and are parameters of the model.
\<close>

type_synonym Solver = "Matrix \<Rightarrow> Vector \<Rightarrow> Vector"
type_synonym Retraction = "Vector \<Rightarrow> Transform"

definition oneRound ::
  "Solver \<Rightarrow> Retraction \<Rightarrow> AlignerParameters \<Rightarrow> bool \<Rightarrow> UVDAligner \<Rightarrow> error + UVDAligner" where
  "oneRound solve v2t P ignore_outliers s =
     (case linearize P ignore_outliers s of
        Inl e \<Rightarrow> Inl e
      | Inr s1 \<Rightarrow>
          let H' = matrix_add (H_matrix s1) (matrix_scale (damping P) (matrix_identity 6));
              dx = solve H' (vector_negate (b_vector s1));
              world_to_camera' = transform_compose (v2t dx) (world_to_camera s1);
              rotation = linear_part world_to_camera';
              rotation_squared =
                matrix_subtract (matrix_product (matrix_transpose rotation) rotation)
                  (matrix_identity 3)
          in Inr (s1\<lparr>H_matrix := H',
                     world_to_camera := world_to_camera'
                       \<lparr>linear_part :=
                          matrix_subtract rotation
                            (matrix_scale (1 / 2) (matrix_product rotation rotation_squared))\<rparr>\<rparr>))"

text \<open>
  The loop of \<open>converge\<close>, from the iteration counter and \<open>total_error_previous\<close>, and
  \<open>converge\<close> itself with the update of the wrapped transforms after the loop.
\<close>

function converge_loop ::
  "Solver \<Rightarrow> Retraction \<Rightarrow> AlignerParameters \<Rightarrow> nat \<Rightarrow> real \<Rightarrow> UVDAligner \<Rightarrow>
   error + UVDAligner" where
  "converge_loop solve v2t P iteration total_error_previous s =
     (if iteration < maximum_number_of_iterations P then
        (case oneRound solve v2t P False s of
           Inl e \<Rightarrow> Inl e
         | Inr s1 \<Rightarrow>
             if error_delta_for_convergence P > \<bar>total_error_previous - total_error s1\<bar> then
               (case oneRound solve v2t P True s1 of
                  Inl e \<Rightarrow> Inl e
                | Inr s2 \<Rightarrow>
                    (case oneRound solve v2t P True s2 of
                       Inl e \<Rightarrow> Inl e
                     | Inr s3 \<Rightarrow>
                         (case oneRound solve v2t P True s3 of
                            Inl e \<Rightarrow> Inl e
                          | Inr s4 \<Rightarrow>
                              Inr (s4\<lparr>information_matrix := H_matrix s4,
                                      has_system_converged := True\<rparr>))))
             else
               converge_loop solve v2t P (iteration + 1) (total_error s1)
                 (if iteration = maximum_number_of_iterations P - 1
                  then s1\<lparr>has_system_converged := False\<rparr> else s1))
      else Inr s)"
  by pat_completeness auto
termination
  by (relation "measure (\<lambda>(solve, v2t, P, iteration, total_error_previous, s).
                  maximum_number_of_iterations P - iteration)") auto

declare converge_loop.simps [simp del]

definition converge ::
  "Solver \<Rightarrow> Retraction \<Rightarrow> AlignerParameters \<Rightarrow> UVDAligner \<Rightarrow> error + UVDAligner" where
  "converge solve v2t P s =
     (case converge_loop solve v2t P 0 0 s of
        Inl e \<Rightarrow> Inl e
      | Inr s' \<Rightarrow>
          let camera_to_world' = transform_inverse (world_to_camera s');
              robot_to_world' =
                transform_compose camera_to_world' (robotToCamera (cameraLeft (frame s')))
          in Inr (s'\<lparr>camera_to_world := camera_to_world',
                     robot_to_world := robot_to_world',
                     world_to_robot := transform_inverse robot_to_world'\<rparr>))"

section \<open>Specification-side definitions\<close>

subsection \<open>Relocalizer\<close>

text \<open>
  The reference identifiers of a candidate list that the used-reference mask does not hold,
  in the order of the list: the votes \<open>_getCorrespondenceNN\<close> counts.
\<close>

definition unmasked_reference_ids :: "Identifier set \<Rightarrow> Candidate list \<Rightarrow> Identifier list" where
  "unmasked_reference_ids msk matches =
     filter (\<lambda>r. r \<notin> msk) (map (\<lambda>m. landmark_identifier (candidate_reference m)) matches)"

text \<open>The invariant of the counting loop after the candidates \<open>pre\<close>.\<close>

definition votes_inv :: "Identifier set \<Rightarrow> Candidate list \<Rightarrow> votes \<Rightarrow> bool" where
  "votes_inv msk pre st =
     (case st of (counts, match_best, count_best) \<Rightarrow>
        counts = mset (unmasked_reference_ids msk pre) \<and>
        (\<forall>r. count_list (unmasked_reference_ids msk pre) r \<le> count_best) \<and>
        (case match_best of
           None \<Rightarrow> count_best = 0 \<and> unmasked_reference_ids msk pre = []
         | Some m \<Rightarrow> m \<in> set pre \<and> landmark_identifier (candidate_reference m) \<notin> msk \<and>
                     count_list (unmasked_reference_ids msk pre)
                       (landmark_identifier (candidate_reference m)) = count_best \<and>
                     0 < count_best))"

text \<open>
  A well-formed candidate map: keys ascending, no empty candidate list, and every
  candidate filed under the identifier of its query landmark.
\<close>

definition candidate_map_wf :: "CandidateMap \<Rightarrow> bool" where
  "candidate_map_wf m =
     (sorted_wrt (<) (map fst m) \<and>
      (\<forall>e \<in> set m. snd e \<noteq> [] \<and>
         (\<forall>c \<in> set (snd e). landmark_identifier (candidate_query c) = fst e)))"

definition query_ids :: "Correspondence list \<Rightarrow> Identifier list" where
  "query_ids cs = map (\<lambda>c. landmark_identifier (query c)) cs"

definition reference_ids :: "Correspondence list \<Rightarrow> Identifier list" where
  "reference_ids cs = map (\<lambda>c. landmark_identifier (reference c)) cs"

text \<open>A closure whose correspondences share no query and no reference landmark.\<close>

definition closure_unique :: "'a Closure \<Rightarrow> bool" where
  "closure_unique c =
     (distinct (query_ids (correspondences c)) \<and> distinct (reference_ids (correspondences c)))"

text \<open>
  Correspondence resolution in the words of the specification. The candidates of a query
  landmark are the matches with that query landmark, in the order of the match list; the
  query landmarks are visited in ascending order of their identifiers. Among the
  candidates whose reference the mask does not hold, \<open>votes_of\<close> counts the occurrences
  of a reference identifier and \<open>highest_votes\<close> is the highest count. The \<open>winner\<close> is
  the first candidate with which its reference has collected the highest count. A
  correspondence is voted when the highest count exceeds the minimum-votes threshold; it
  carries the winner's landmarks, the count, and the count divided by the number of all
  candidates. Each voted correspondence adds its reference to the mask for the query
  landmarks that follow.
\<close>

definition candidate_of :: "Match \<Rightarrow> Candidate" where
  "candidate_of m =
     \<lparr>candidate_query = object_query m, candidate_reference = object_reference m,
      candidate_distance = distance m\<rparr>"

definition candidates_of :: "Match list \<Rightarrow> Identifier \<Rightarrow> Candidate list" where
  "candidates_of ms k =
     map candidate_of (filter (\<lambda>m. landmark_identifier (object_query m) = k) ms)"

definition query_landmarks :: "Match list \<Rightarrow> Identifier list" where
  "query_landmarks ms = sort (remdups (map (\<lambda>m. landmark_identifier (object_query m)) ms))"

definition unmasked_candidates :: "Identifier set \<Rightarrow> Candidate list \<Rightarrow> Candidate list" where
  "unmasked_candidates msk cands =
     filter (\<lambda>c. landmark_identifier (candidate_reference c) \<notin> msk) cands"

definition votes_of :: "Candidate list \<Rightarrow> Identifier \<Rightarrow> nat" where
  "votes_of cs r = length (filter (\<lambda>c. landmark_identifier (candidate_reference c) = r) cs)"

definition highest_votes :: "Candidate list \<Rightarrow> nat" where
  "highest_votes cs =
     foldr max (map (\<lambda>c. votes_of cs (landmark_identifier (candidate_reference c))) cs) 0"

definition winner :: "Candidate list \<Rightarrow> Candidate option" where
  "winner cs =
     map_option (\<lambda>j. cs ! j)
       (find (\<lambda>j. votes_of (take (Suc j) cs)
                     (landmark_identifier (candidate_reference (cs ! j))) = highest_votes cs)
          [0..<length cs])"

definition voted_correspondence ::
  "RelocalizerParameters \<Rightarrow> Identifier set \<Rightarrow> Candidate list \<Rightarrow> Correspondence option" where
  "voted_correspondence P msk cands =
     (let cs = unmasked_candidates msk cands in
      case winner cs of
        None \<Rightarrow> None
      | Some w \<Rightarrow>
          if minimum_matches_per_correspondence P < highest_votes cs
          then Some \<lparr>query = candidate_query w, reference = candidate_reference w,
                     matching_count = highest_votes cs,
                     matching_ratio = real (highest_votes cs) / real (length cands)\<rparr>
          else None)"

fun voted_correspondences ::
  "RelocalizerParameters \<Rightarrow> Match list \<Rightarrow> Identifier list \<Rightarrow> Identifier set \<Rightarrow>
   Correspondence list" where
  "voted_correspondences P ms [] msk = []"
| "voted_correspondences P ms (k # ks) msk =
     (case voted_correspondence P msk (candidates_of ms k) of
        None \<Rightarrow> voted_correspondences P ms ks msk
      | Some c \<Rightarrow>
          c # voted_correspondences P ms ks (insert (landmark_identifier (reference c)) msk))"

text \<open>
  What the claims say a reference local map yields: the correspondences voted for its
  matches from an empty mask, and the closure (a list of none or one) for the reference at
  index \<open>i\<close>, with the number of distinct query landmarks among the matches and the match
  ratio.
\<close>

definition resolved_correspondences :: "RelocalizerParameters \<Rightarrow> Match list \<Rightarrow> Correspondence list" where
  "resolved_correspondences P ms = voted_correspondences P ms (query_landmarks ms) {}"

text \<open>
  For the proofs: whether the reference of candidate \<open>j\<close> has the highest count within the
  first \<open>j + 1\<close> candidates, the state of the counting loop pinned to the voting, a
  candidate map given by its keys, and the keys after grouping further matches.
\<close>

definition reaches :: "Candidate list \<Rightarrow> nat \<Rightarrow> bool" where
  "reaches cs j =
     (votes_of (take (Suc j) cs) (landmark_identifier (candidate_reference (cs ! j)))
        = highest_votes cs)"

definition votes_pinned :: "Identifier set \<Rightarrow> Candidate list \<Rightarrow> votes \<Rightarrow> bool" where
  "votes_pinned msk pre st =
     (case st of (counts, match_best, count_best) \<Rightarrow>
        (\<forall>r. count counts r = votes_of (unmasked_candidates msk pre) r) \<and>
        count_best = highest_votes (unmasked_candidates msk pre) \<and>
        match_best = winner (unmasked_candidates msk pre))"

definition entries :: "(Identifier \<Rightarrow> Candidate list) \<Rightarrow> Identifier list \<Rightarrow> CandidateMap" where
  "entries f ks = map (\<lambda>k. (k, f k)) ks"

definition insert_key :: "Identifier \<Rightarrow> Identifier list \<Rightarrow> Identifier list" where
  "insert_key k ks = (if k \<in> set ks then ks else insort k ks)"

fun keys_after :: "Match list \<Rightarrow> Identifier list \<Rightarrow> Identifier list" where
  "keys_after [] ks = ks"
| "keys_after (m # ms) ks = keys_after ms (insert_key (landmark_identifier (object_query m)) ks)"

definition expected_closure ::
  "RelocalizerParameters \<Rightarrow> 'a LocalMap \<Rightarrow> 'a LocalMap list \<Rightarrow> MatchVectorMap \<Rightarrow> nat \<Rightarrow>
   'a Closure list" where
  "expected_closure P q refs matches i =
     (case matches i of
        None \<Rightarrow> []
      | Some ms \<Rightarrow>
          let ratio = real (length ms) / real (length (appearances q));
              n = card ((\<lambda>x. landmark_identifier (object_query x)) ` set ms)
          in if preliminary_minimum_matching_ratio P \<le> ratio \<and>
                minimum_number_of_matched_landmarks P \<le> n
             then [\<lparr>local_map_query = q, local_map_reference = refs ! i,
                    absolute_number_of_matches = n, relative_number_of_matches = ratio,
                    correspondences = resolved_correspondences P ms\<rparr>]
             else [])"

text \<open>Successive calls of \<open>detectClosures\<close>, one per local map, stopping at an error.\<close>

fun detectClosures_sequence ::
  "'a Matcher \<Rightarrow> RelocalizerParameters \<Rightarrow> 'a LocalMap list \<Rightarrow> 'a Relocalizer \<Rightarrow>
   error + 'a Relocalizer" where
  "detectClosures_sequence matchAndAdd P [] s = Inr s"
| "detectClosures_sequence matchAndAdd P (q # qs) s =
     (case detectClosures matchAndAdd P (Some q) s of
        Inl e \<Rightarrow> Inl e
      | Inr s' \<Rightarrow> detectClosures_sequence matchAndAdd P qs s')"

text \<open>The landmark identifiers of all correspondences in the pending closures.\<close>

definition emitted_query_ids :: "'a Relocalizer \<Rightarrow> Identifier list" where
  "emitted_query_ids s = query_ids (concat (map correspondences (closures s)))"

definition emitted_reference_ids :: "'a Relocalizer \<Rightarrow> Identifier list" where
  "emitted_reference_ids s = reference_ids (concat (map correspondences (closures s)))"

subsection \<open>Example inputs of the relocalizer\<close>

text \<open>
  Two local maps are indexed, with an interspace of one; the query's landmark 1 matches
  landmark 7 twice in each of the two reference local maps.
\<close>

definition example_landmark :: "Identifier \<Rightarrow> Landmark" where
  "example_landmark i =
     \<lparr>landmark_identifier = i, coordinates = (\<lambda>k. 0), areCoordinatesValidated = True\<rparr>"

definition example_match :: "Identifier \<Rightarrow> Identifier \<Rightarrow> Match" where
  "example_match i j =
     \<lparr>object_query = example_landmark i, object_reference = example_landmark j, distance = 0\<rparr>"

definition example_candidate :: "Identifier \<Rightarrow> Identifier \<Rightarrow> Candidate" where
  "example_candidate i j =
     \<lparr>candidate_query = example_landmark i, candidate_reference = example_landmark j,
      candidate_distance = 0\<rparr>"

definition example_parameters :: RelocalizerParameters where
  "example_parameters =
     \<lparr>preliminary_minimum_interspace_queries = 1,
      preliminary_minimum_matching_ratio = 1 / 2,
      minimum_number_of_matched_landmarks = 1,
      minimum_matches_per_correspondence = 1,
      maximum_descriptor_distance = 25\<rparr>"

definition example_local_map :: "Identifier \<Rightarrow> nat LocalMap" where
  "example_local_map i = \<lparr>local_map_identifier = i, appearances = [0, 1]\<rparr>"

definition example_relocalizer :: "nat Relocalizer" where
  "example_relocalizer =
     \<lparr>added_local_maps = [example_local_map 0, example_local_map 1],
      place_database = [[0, 1], [0, 1]],
      closures = [],
      mask_id_references_for_correspondences = {},
      getchar_calls = 0\<rparr>"

definition example_matcher :: "nat Matcher" where
  "example_matcher db q thr =
     [0 \<mapsto> [example_match 1 7, example_match 1 7],
      1 \<mapsto> [example_match 1 7, example_match 1 7]]"

text \<open>
  A contested reference: in the first reference local map the query's landmarks 1 and 2
  both match landmark 7 twice and landmark 3 matches landmark 9 twice; the second
  reference local map has no match.
\<close>

definition example_query_map :: "nat LocalMap" where
  "example_query_map = \<lparr>local_map_identifier = 2, appearances = [0, 1, 2, 3, 4, 5]\<rparr>"

definition example_contested_matcher :: "nat Matcher" where
  "example_contested_matcher db q thr =
     [0 \<mapsto> [example_match 1 7, example_match 1 7, example_match 2 7, example_match 2 7,
                example_match 3 9, example_match 3 9],
      1 \<mapsto> []]"

definition closure_summary ::
  "'a Closure \<Rightarrow> Count \<times> real \<times> Identifier list \<times> Identifier list \<times> Count list" where
  "closure_summary c =
     (absolute_number_of_matches c, relative_number_of_matches c,
      query_ids (correspondences c), reference_ids (correspondences c),
      map matching_count (correspondences c))"

subsection \<open>Alignment engine\<close>

text \<open>
  The predicted point of a frame point in the camera frame and in the image, as \<open>linearize\<close>
  computes them from the state before the pass; the two tests that decide whether the
  point is processed (depth within the far limit, projection within the image); its
  squared residual; and the classification and the recorded error the claims speak of.
\<close>

definition point_in_camera :: "UVDAligner \<Rightarrow> FramePoint \<Rightarrow> Vector" where
  "point_in_camera s fp =
     predicted_point (world_to_camera s) fp
       (case previous fp of None \<Rightarrow> vector_zero | Some w \<Rightarrow> w)"

definition point_in_image :: "UVDAligner \<Rightarrow> FramePoint \<Rightarrow> Vector" where
  "point_in_image s fp = project (camera_matrix s) (point_in_camera s fp)"

definition depth_in_range :: "AlignerParameters \<Rightarrow> UVDAligner \<Rightarrow> FramePoint \<Rightarrow> bool" where
  "depth_in_range P s fp =
     (0 < point_in_camera s fp 2 \<and> point_in_camera s fp 2 \<le> maximum_depth_far_meters P)"

definition in_image :: "UVDAligner \<Rightarrow> FramePoint \<Rightarrow> bool" where
  "in_image s fp =
     (0 \<le> point_in_image s fp 0 \<and> point_in_image s fp 0 \<le> real (number_of_cols_image s) \<and>
      0 \<le> point_in_image s fp 1 \<and> point_in_image s fp 1 \<le> real (number_of_rows_image s))"

definition processed :: "AlignerParameters \<Rightarrow> UVDAligner \<Rightarrow> FramePoint \<Rightarrow> bool" where
  "processed P s fp = (depth_in_range P s fp \<and> in_image s fp)"

definition squared_residual :: "UVDAligner \<Rightarrow> FramePoint \<Rightarrow> real" where
  "squared_residual s fp = squared_norm (residual (point_in_image s fp) fp)"

definition is_inlier :: "AlignerParameters \<Rightarrow> UVDAligner \<Rightarrow> FramePoint \<Rightarrow> bool" where
  "is_inlier P s fp = (processed P s fp \<and> squared_residual s fp \<le> maximum_error_kernel P)"

definition is_outlier :: "AlignerParameters \<Rightarrow> UVDAligner \<Rightarrow> FramePoint \<Rightarrow> bool" where
  "is_outlier P s fp = (processed P s fp \<and> squared_residual s fp > maximum_error_kernel P)"

definition recorded_error :: "AlignerParameters \<Rightarrow> UVDAligner \<Rightarrow> FramePoint \<Rightarrow> real" where
  "recorded_error P s fp = (if processed P s fp then squared_residual s fp else - 1)"

text \<open>What of a frame point and of the aligner the prediction and the residual read.\<close>

definition observation ::
  "FramePoint \<Rightarrow> Vector \<times> Vector \<times> Vector option \<times> Landmark option" where
  "observation fp =
     (imageCoordinatesLeft fp, cameraCoordinatesLeft fp, previous fp, landmark fp)"

definition same_geometry :: "UVDAligner \<Rightarrow> UVDAligner \<Rightarrow> bool" where
  "same_geometry s t =
     (world_to_camera t = world_to_camera s \<and> camera_matrix t = camera_matrix s \<and>
      number_of_rows_image t = number_of_rows_image s \<and>
      number_of_cols_image t = number_of_cols_image s \<and>
      cameraLeft (frame t) = cameraLeft (frame s) \<and>
      map observation (activePoints (frame t)) = map observation (activePoints (frame s)) \<and>
      length (errors t) = length (errors s) \<and> length (inliers t) = length (inliers s))"

text \<open>
  The weight of a point before the robust kernel (the initial weight, the fallback weight
  and the depth attenuation), its Jacobian, and the terms a point adds to \<open>H\<close> and \<open>b\<close>.
  \<open>point_start\<close> is the aligner at the depth test of the loop body.
\<close>

definition base_weight :: "AlignerParameters \<Rightarrow> FramePoint \<Rightarrow> Matrix" where
  "base_weight P fp =
     (if landmark_validated fp then omega_initial
      else matrix_scale (weight_framepoint P) omega_initial)"

definition point_weight :: "AlignerParameters \<Rightarrow> UVDAligner \<Rightarrow> FramePoint \<Rightarrow> Matrix" where
  "point_weight P s fp =
     matrix_scale (depth_attenuation P (point_in_camera s fp 2)) (base_weight P fp)"

definition point_jacobian :: "AlignerParameters \<Rightarrow> UVDAligner \<Rightarrow> FramePoint \<Rightarrow> Matrix" where
  "point_jacobian P s fp =
     matrix_product
       (matrix_product
          (jacobian_projection (matrix_vector (camera_matrix s) (point_in_camera s fp))
             (point_in_camera s fp 2))
          (camera_matrix s))
       (jacobian_transform P (point_in_camera s fp))"

definition contribution_H :: "Matrix \<Rightarrow> Matrix \<Rightarrow> Matrix" where
  "contribution_H J W = matrix_product (matrix_product (matrix_transpose J) W) J"

definition contribution_b :: "Matrix \<Rightarrow> Matrix \<Rightarrow> Vector \<Rightarrow> Vector" where
  "contribution_b J W e = matrix_vector (matrix_product (matrix_transpose J) W) e"

definition point_start :: "AlignerParameters \<Rightarrow> nat \<Rightarrow> UVDAligner \<Rightarrow> UVDAligner" where
  "point_start P i s =
     s\<lparr>errors := (errors s)[i := - 1], inliers := (inliers s)[i := False],
       omega := base_weight P (activePoints (frame s) ! i)\<rparr>"

text \<open>
  The factor by which the loop body has scaled the initial weight of a point when it
  returns: the fallback weight for a point without validated landmark, and for a
  processed point the depth attenuation (with the robust kernel for an outlier), unless
  the point is an ignored outlier.
\<close>

definition omega_factor :: "AlignerParameters \<Rightarrow> bool \<Rightarrow> UVDAligner \<Rightarrow> FramePoint \<Rightarrow> real" where
  "omega_factor P ign s fp =
     (if landmark_validated fp then 1 else weight_framepoint P) *
     (if \<not> processed P s fp then 1
      else if is_outlier P s fp
           then (if ign then 1
                 else depth_attenuation P (point_in_camera s fp 2) *
                      (maximum_error_kernel P / squared_residual s fp))
           else depth_attenuation P (point_in_camera s fp 2))"

text \<open>
  For \<open>converge\<close>: the aligner after \<open>n\<close> rounds that keep outliers, the total error after
  round \<open>n\<close> (\<open>e0\<close>, the initial value of \<open>total_error_previous\<close>, for \<open>n = 0\<close>), whether
  round \<open>n\<close> passes the convergence test, the three rounds that ignore outliers with the
  recording of the information matrix and the flag, and the update of the wrapped
  transforms.
\<close>

fun rounds ::
  "Solver \<Rightarrow> Retraction \<Rightarrow> AlignerParameters \<Rightarrow> nat \<Rightarrow> UVDAligner \<Rightarrow> error + UVDAligner" where
  "rounds solve v2t P 0 s = Inr s"
| "rounds solve v2t P (Suc n) s =
     (case oneRound solve v2t P False s of
        Inl e \<Rightarrow> Inl e
      | Inr t \<Rightarrow> rounds solve v2t P n t)"

definition error_after ::
  "Solver \<Rightarrow> Retraction \<Rightarrow> AlignerParameters \<Rightarrow> real \<Rightarrow> nat \<Rightarrow> UVDAligner \<Rightarrow> real" where
  "error_after solve v2t P e0 n s =
     (if n = 0 then e0
      else case rounds solve v2t P n s of Inl e \<Rightarrow> 0 | Inr t \<Rightarrow> total_error t)"

definition settled ::
  "Solver \<Rightarrow> Retraction \<Rightarrow> AlignerParameters \<Rightarrow> real \<Rightarrow> nat \<Rightarrow> UVDAligner \<Rightarrow> bool" where
  "settled solve v2t P e0 n s =
     (error_delta_for_convergence P >
        \<bar>error_after solve v2t P e0 (n - 1) s - error_after solve v2t P e0 n s\<bar>)"

definition polish ::
  "Solver \<Rightarrow> Retraction \<Rightarrow> AlignerParameters \<Rightarrow> UVDAligner \<Rightarrow> error + UVDAligner" where
  "polish solve v2t P s1 =
     (case oneRound solve v2t P True s1 of
        Inl e \<Rightarrow> Inl e
      | Inr s2 \<Rightarrow>
          (case oneRound solve v2t P True s2 of
             Inl e \<Rightarrow> Inl e
           | Inr s3 \<Rightarrow>
               (case oneRound solve v2t P True s3 of
                  Inl e \<Rightarrow> Inl e
                | Inr s4 \<Rightarrow>
                    Inr (s4\<lparr>information_matrix := H_matrix s4,
                            has_system_converged := True\<rparr>))))"

definition update_wrapped :: "UVDAligner \<Rightarrow> UVDAligner" where
  "update_wrapped s =
     s\<lparr>camera_to_world := transform_inverse (world_to_camera s),
       robot_to_world :=
         transform_compose (transform_inverse (world_to_camera s))
           (robotToCamera (cameraLeft (frame s))),
       world_to_robot :=
         transform_inverse
           (transform_compose (transform_inverse (world_to_camera s))
              (robotToCamera (cameraLeft (frame s))))\<rparr>"

subsection \<open>Example inputs of the alignment engine\<close>

text \<open>
  A camera with focal length 100 and principal point (50, 50) on a 100 x 100 image, the
  identity as world-to-camera transform, and three frame points without landmark. The
  first is predicted where it was observed; the second ten pixels beside its observation;
  the third has a predicted depth of one metre and projects half a pixel left of the
  image. The aligner has converged in an earlier run; its iteration cap is zero.
\<close>

definition vector3 :: "real \<Rightarrow> real \<Rightarrow> real \<Rightarrow> Vector" where
  "vector3 x y z = (\<lambda>i. if i = 0 then x else if i = 1 then y else if i = 2 then z else 0)"

definition transform_identity :: Transform where
  "transform_identity = \<lparr>linear_part = matrix_identity 3, translation = vector_zero\<rparr>"

definition example_camera :: Camera where
  "example_camera =
     \<lparr>cameraMatrix =
        (\<lambda>i j. if i = 0 \<and> j = 0 then 100 else if i = 0 \<and> j = 2 then 50
               else if i = 1 \<and> j = 1 then 100 else if i = 1 \<and> j = 2 then 50
               else if i = 2 \<and> j = 2 then 1 else 0),
      imageRows = 100, imageCols = 100,
      cameraToRobot = transform_identity, robotToCamera = transform_identity,
      isInFieldOfView = (\<lambda>v. 0 \<le> v 0 \<and> v 0 \<le> 100 \<and> 0 \<le> v 1 \<and> v 1 \<le> 100)\<rparr>"

definition example_point :: "real \<Rightarrow> real \<Rightarrow> Vector \<Rightarrow> FramePoint" where
  "example_point u d w =
     \<lparr>imageCoordinatesLeft = vector3 u 50 1, cameraCoordinatesLeft = vector3 0 0 d,
      previous = Some w, landmark = None, reprojectionCoordinatesLeft = vector_zero\<rparr>"

definition example_frame :: Frame where
  "example_frame =
     \<lparr>activePoints =
        [example_point 50 2 (vector3 0 0 2),
         example_point 40 2 (vector3 0 0 2),
         example_point 0 1 (vector3 (- 101 / 200) 0 1)],
      cameraLeft = example_camera\<rparr>"

definition example_aligner_parameters :: AlignerParameters where
  "example_aligner_parameters =
     \<lparr>weight_framepoint = 1 / 10, maximum_depth_near_meters = 5,
      maximum_depth_far_meters = 20, maximum_error_kernel = 9, damping = 1,
      error_delta_for_convergence = 1 / 1000, maximum_number_of_iterations = 0\<rparr>"

definition example_aligner :: UVDAligner where
  "example_aligner =
     \<lparr>frame = example_frame, errors = [0, 0, 0], inliers = [False, False, False],
      robot_to_world = transform_identity, world_to_robot = transform_identity,
      camera_to_world = transform_identity, world_to_camera = transform_identity,
      camera_matrix = cameraMatrix example_camera,
      number_of_rows_image = 100, number_of_cols_image = 100,
      H_matrix = matrix_zero, b_vector = vector_zero, omega = matrix_zero,
      jacobian = matrix_zero, number_of_inliers = 0, number_of_outliers = 0,
      total_error = 0, information_matrix = matrix_zero, has_system_converged = True\<rparr>"

definition classification :: "UVDAligner \<Rightarrow> bool list \<times> real list \<times> nat \<times> nat" where
  "classification s = (inliers s, errors s, number_of_inliers s, number_of_outliers s)"

text \<open>
  For \<open>converge\<close>: a solver that returns the zero increment and a retraction that returns
  the identity, parameters with a given iteration cap and convergence threshold, and what
  a run reports.
\<close>

definition example_solver :: Solver where
  "example_solver A v = vector_zero"

definition example_retraction :: Retraction where
  "example_retraction v = transform_identity"

definition example_converge_parameters :: "Count \<Rightarrow> real \<Rightarrow> AlignerParameters" where
  "example_converge_parameters cap delta =
     example_aligner_parameters
       \<lparr>error_delta_for_convergence := delta, maximum_number_of_iterations := cap\<rparr>"

definition convergence_summary :: "UVDAligner \<Rightarrow> bool \<times> real \<times> Count \<times> Count" where
  "convergence_summary s =
     (has_system_converged s, total_error s, number_of_inliers s, number_of_outliers s)"

section \<open>Properties of the relocalizer\<close>

subsection \<open>Auxiliary facts\<close>

lemma unmasked_snoc:
  "unmasked_reference_ids msk (pre @ [m]) =
     (if landmark_identifier (candidate_reference m) \<in> msk then unmasked_reference_ids msk pre
      else unmasked_reference_ids msk pre @ [landmark_identifier (candidate_reference m)])"
  by (simp add: unmasked_reference_ids_def)

lemma count_list_snoc: "count_list (xs @ [y]) r = count_list xs r + (if r = y then 1 else 0)"
  by (induction xs) auto

lemma votes_inv_step:
  assumes "votes_inv msk pre (counts, match_best, count_best)"
  shows "votes_inv msk (pre @ [m]) (count_votes msk [m] (counts, match_best, count_best))"
  using assms
  apply (auto simp: votes_inv_def unmasked_snoc count_list_snoc Let_def le_Suc_eq count_mset
      split: option.splits)
  by (meson less_Suc_eq_le order_trans)

lemma count_votes_append:
  "count_votes msk (xs @ ys) st = count_votes msk ys (count_votes msk xs st)"
  by (induction msk xs st rule: count_votes.induct) (auto simp: Let_def)

lemma votes_inv_run:
  "votes_inv msk pre st \<Longrightarrow> votes_inv msk (pre @ ms) (count_votes msk ms st)"
proof (induction ms arbitrary: pre st)
  case Nil
  then show ?case by simp
next
  case (Cons m ms)
  obtain counts match_best count_best where st: "st = (counts, match_best, count_best)"
    by (cases st) auto
  have "votes_inv msk (pre @ [m]) (count_votes msk [m] st)"
    using Cons.prems votes_inv_step unfolding st by blast
  from Cons.IH[OF this] show ?case
    using count_votes_append[of msk "[m]" ms st] by simp
qed

lemma votes_inv_init: "votes_inv msk [] ({#}, None, 0)"
  by (simp add: votes_inv_def unmasked_reference_ids_def)

lemma getCorrespondenceNN_general:
  assumes "matches \<noteq> []"
  shows "(let ids = unmasked_reference_ids msk matches in
          if \<exists>r \<in> set ids. minimum_matches_per_correspondence P < count_list ids r
          then \<exists>m \<in> set matches.
                 landmark_identifier (candidate_reference m) \<notin> msk \<and>
                 (\<forall>r. count_list ids r
                        \<le> count_list ids (landmark_identifier (candidate_reference m))) \<and>
                 getCorrespondenceNN P matches msk =
                   Inr (Some \<lparr>query = candidate_query m,
                              reference = candidate_reference m,
                              matching_count =
                                count_list ids (landmark_identifier (candidate_reference m)),
                              matching_ratio =
                                real (count_list ids (landmark_identifier (candidate_reference m)))
                                  / real (length matches)\<rparr>,
                        insert (landmark_identifier (candidate_reference m)) msk)
          else getCorrespondenceNN P matches msk = Inr (None, msk))"
proof -
  define ids where "ids = unmasked_reference_ids msk matches"
  obtain counts match_best count_best where
    run: "count_votes msk matches ({#}, None, 0) = (counts, match_best, count_best)"
    by (cases "count_votes msk matches ({#}, None, 0)") auto
  have inv: "votes_inv msk matches (counts, match_best, count_best)"
    using votes_inv_run[OF votes_inv_init, of msk matches] run by simp
  have le: "count_list ids r \<le> count_best" for r
    using inv by (simp add: votes_inv_def ids_def)
  show ?thesis
  proof (cases match_best)
    case None
    then have "ids = []"
      using inv by (simp add: votes_inv_def ids_def)
    then show ?thesis
      using assms run None by (simp add: getCorrespondenceNN_def ids_def[symmetric])
  next
    case (Some m)
    have m: "m \<in> set matches" "landmark_identifier (candidate_reference m) \<notin> msk"
      "count_list ids (landmark_identifier (candidate_reference m)) = count_best"
      "0 < count_best"
      using inv Some by (simp_all add: votes_inv_def ids_def)
    have mem: "landmark_identifier (candidate_reference m) \<in> set ids"
      using m(3,4) by (metis count_list_0_iff not_less_zero)
    show ?thesis
    proof (cases "minimum_matches_per_correspondence P < count_best")
      case True
      then have ex: "\<exists>r \<in> set ids. minimum_matches_per_correspondence P < count_list ids r"
        using mem m(3) by auto
      have "getCorrespondenceNN P matches msk =
              Inr (Some \<lparr>query = candidate_query m, reference = candidate_reference m,
                         matching_count = count_best,
                         matching_ratio = real count_best / real (length matches)\<rparr>,
                   insert (landmark_identifier (candidate_reference m)) msk)"
        using assms run Some True by (simp add: getCorrespondenceNN_def)
      then show ?thesis
        using ex m le unfolding Let_def ids_def[symmetric] by auto
    next
      case False
      then have "\<not> (\<exists>r \<in> set ids. minimum_matches_per_correspondence P < count_list ids r)"
        using le by (meson le_less_trans not_less)
      moreover have "getCorrespondenceNN P matches msk = Inr (None, msk)"
        using assms run Some False by (simp add: getCorrespondenceNN_def)
      ultimately show ?thesis
        unfolding Let_def ids_def[symmetric] by simp
    qed
  qed
qed

lemma candidate_map_add_keys:
  "fst ` set (candidate_map_add k c m) = insert k (fst ` set m)"
  by (induction k c m rule: candidate_map_add.induct) auto

lemma candidate_map_add_wf:
  "candidate_map_wf m \<Longrightarrow> landmark_identifier (candidate_query c) = k \<Longrightarrow>
   candidate_map_wf (candidate_map_add k c m)"
proof (induction k c m rule: candidate_map_add.induct)
  case (1 k c)
  then show ?case by (simp add: candidate_map_wf_def)
next
  case (2 k c k' cs m)
  have keys: "fst ` set (candidate_map_add k c m) = insert k (fst ` set m)"
    by (rule candidate_map_add_keys)
  show ?case
  proof (cases "k = k'")
    case True
    then show ?thesis using 2 by (auto simp: candidate_map_wf_def)
  next
    case ne: False
    show ?thesis
    proof (cases "k < k'")
      case True
      then show ?thesis using 2 ne by (auto simp: candidate_map_wf_def)
    next
      case False
      then have lt: "k' < k" using ne by simp
      have wf_m: "candidate_map_wf m" using 2(2) by (auto simp: candidate_map_wf_def)
      have ih: "candidate_map_wf (candidate_map_add k c m)"
        using 2(1)[OF ne False wf_m 2(3)] .
      have "\<forall>x \<in> fst ` set (candidate_map_add k c m). k' < x"
        unfolding keys using lt 2(2) by (auto simp: candidate_map_wf_def)
      then show ?thesis
        using ih 2(2) ne False by (auto simp: candidate_map_wf_def)
    qed
  qed
qed

lemma group_matches_wf:
  "candidate_map_wf m \<Longrightarrow> candidate_map_wf (group_matches ms m)"
  by (induction ms m rule: group_matches.induct) (simp_all add: candidate_map_add_wf)

lemma group_matches_keys:
  "fst ` set (group_matches ms m) =
     (\<lambda>x. landmark_identifier (object_query x)) ` set ms \<union> fst ` set m"
  by (induction ms m rule: group_matches.induct) (auto simp: candidate_map_add_keys)

lemma candidate_map_wf_distinct: "candidate_map_wf m \<Longrightarrow> distinct (map fst m)"
  by (simp add: candidate_map_wf_def strict_sorted_iff)

lemma group_matches_length:
  "length (group_matches ms []) = card ((\<lambda>x. landmark_identifier (object_query x)) ` set ms)"
proof -
  have wf: "candidate_map_wf (group_matches ms [])"
    by (rule group_matches_wf) (simp add: candidate_map_wf_def)
  have "length (group_matches ms []) = length (map fst (group_matches ms []))" by simp
  also have "\<dots> = card (set (map fst (group_matches ms [])))"
    using distinct_card[OF candidate_map_wf_distinct[OF wf]] by simp
  also have "\<dots> = card ((\<lambda>x. landmark_identifier (object_query x)) ` set ms)"
    using group_matches_keys[of ms "[]"] by simp
  finally show ?thesis .
qed

lemma getCorrespondenceNN_cases:
  assumes "matches \<noteq> []"
  shows "getCorrespondenceNN P matches msk = Inr (None, msk) \<or>
         (\<exists>m \<in> set matches. \<exists>n r.
            landmark_identifier (candidate_reference m) \<notin> msk \<and>
            getCorrespondenceNN P matches msk =
              Inr (Some \<lparr>query = candidate_query m, reference = candidate_reference m,
                         matching_count = n, matching_ratio = r\<rparr>,
                   insert (landmark_identifier (candidate_reference m)) msk))"
  using getCorrespondenceNN_general[OF assms, of msk P]
  unfolding Let_def by (auto split: if_splits)

lemma resolve_correspondences_inv:
  assumes "candidate_map_wf m"
  shows "\<exists>new msk'. resolve_correspondences P m cs msk = Inr (cs @ new, msk') \<and>
           msk' = msk \<union> set (reference_ids new) \<and>
           distinct (reference_ids new) \<and> set (reference_ids new) \<inter> msk = {} \<and>
           distinct (query_ids new) \<and> set (query_ids new) \<subseteq> fst ` set m"
  using assms
proof (induction m arbitrary: cs msk)
  case Nil
  then show ?case by (simp add: reference_ids_def query_ids_def)
next
  case (Cons e m)
  have wf_m: "candidate_map_wf m" and ne: "snd e \<noteq> []"
    and key: "\<forall>c \<in> set (snd e). landmark_identifier (candidate_query c) = fst e"
    and fresh: "fst e \<notin> fst ` set m"
    using Cons.prems by (auto simp: candidate_map_wf_def)
  from getCorrespondenceNN_cases[OF ne, of P msk]
  show ?case
  proof
    assume none: "getCorrespondenceNN P (snd e) msk = Inr (None, msk)"
    from Cons.IH[OF wf_m, of cs msk] obtain new msk' where
      "resolve_correspondences P m cs msk = Inr (cs @ new, msk')"
      "msk' = msk \<union> set (reference_ids new)" "distinct (reference_ids new)"
      "set (reference_ids new) \<inter> msk = {}" "distinct (query_ids new)"
      "set (query_ids new) \<subseteq> fst ` set m" by blast
    then show ?thesis using none by auto
  next
    assume "\<exists>ca \<in> set (snd e). \<exists>n r.
            landmark_identifier (candidate_reference ca) \<notin> msk \<and>
            getCorrespondenceNN P (snd e) msk =
              Inr (Some \<lparr>query = candidate_query ca, reference = candidate_reference ca,
                         matching_count = n, matching_ratio = r\<rparr>,
                   insert (landmark_identifier (candidate_reference ca)) msk)"
    then obtain ca n r where ca: "ca \<in> set (snd e)"
      "landmark_identifier (candidate_reference ca) \<notin> msk"
      and res: "getCorrespondenceNN P (snd e) msk =
              Inr (Some \<lparr>query = candidate_query ca, reference = candidate_reference ca,
                         matching_count = n, matching_ratio = r\<rparr>,
                   insert (landmark_identifier (candidate_reference ca)) msk)"
      by blast
    define c where "c = \<lparr>query = candidate_query ca, reference = candidate_reference ca,
                         matching_count = n, matching_ratio = r\<rparr>"
    have qc: "landmark_identifier (query c) = fst e" using key ca(1) by (simp add: c_def)
    have rc: "landmark_identifier (reference c) = landmark_identifier (candidate_reference ca)"
      by (simp add: c_def)
    from Cons.IH[OF wf_m, of "cs @ [c]" "insert (landmark_identifier (candidate_reference ca)) msk"]
    obtain new msk' where IH:
      "resolve_correspondences P m (cs @ [c])
         (insert (landmark_identifier (candidate_reference ca)) msk) = Inr ((cs @ [c]) @ new, msk')"
      "msk' = insert (landmark_identifier (candidate_reference ca)) msk \<union> set (reference_ids new)"
      "distinct (reference_ids new)"
      "set (reference_ids new) \<inter> insert (landmark_identifier (candidate_reference ca)) msk = {}"
      "distinct (query_ids new)"
      "set (query_ids new) \<subseteq> fst ` set m" by blast
    have "resolve_correspondences P (e # m) cs msk = Inr (cs @ (c # new), msk')"
      using res IH(1) by (simp add: c_def)
    moreover have "msk' = msk \<union> set (reference_ids (c # new))"
      using IH(2) rc by (auto simp: reference_ids_def)
    moreover have "distinct (reference_ids (c # new))"
      using IH(3,4) rc by (auto simp: reference_ids_def)
    moreover have "set (reference_ids (c # new)) \<inter> msk = {}"
      using IH(4) ca(2) rc by (auto simp: reference_ids_def)
    moreover have "distinct (query_ids (c # new))"
      using IH(5,6) qc fresh by (auto simp: query_ids_def)
    moreover have "set (query_ids (c # new)) \<subseteq> fst ` set (e # m)"
      using IH(6) qc by (auto simp: query_ids_def)
    ultimately show ?thesis by blast
  qed
qed

lemma candidate_map_wf_Nil: "candidate_map_wf []"
  by (simp add: candidate_map_wf_def)

lemma resolve_grouped:
  "\<exists>cs msk'. resolve_correspondences P (group_matches ms []) [] {} = Inr (cs, msk') \<and>
      msk' = set (reference_ids cs) \<and> distinct (reference_ids cs) \<and> distinct (query_ids cs)"
  using resolve_correspondences_inv[OF group_matches_wf[OF candidate_map_wf_Nil], of P ms "[]" "{}"]
  by auto

lemma foldr_max_ge: "x \<in> set xs \<Longrightarrow> x \<le> foldr max xs (0::nat)"
  by (induction xs) auto

lemma foldr_max_mem: "foldr max xs (0::nat) \<in> insert 0 (set xs)"
  by (induction xs) (auto simp: max_def)

lemma votes_of_le_highest: "votes_of cs r \<le> highest_votes cs"
proof (cases "\<exists>c \<in> set cs. landmark_identifier (candidate_reference c) = r")
  case True
  then obtain c where c: "c \<in> set cs" "landmark_identifier (candidate_reference c) = r" by blast
  then have "votes_of cs r \<in> set (map (\<lambda>c. votes_of cs (landmark_identifier (candidate_reference c))) cs)"
    by auto
  then show ?thesis unfolding highest_votes_def by (rule foldr_max_ge)
next
  case False
  then have "filter (\<lambda>c. landmark_identifier (candidate_reference c) = r) cs = []"
    by (auto simp: filter_empty_conv)
  then show ?thesis by (simp add: votes_of_def)
qed

lemma highest_votes_attained:
  "cs \<noteq> [] \<Longrightarrow>
   \<exists>c \<in> set cs. votes_of cs (landmark_identifier (candidate_reference c)) = highest_votes cs"
proof -
  assume ne: "cs \<noteq> []"
  then obtain c where c: "c \<in> set cs" by (cases cs) auto
  have "0 < votes_of cs (landmark_identifier (candidate_reference c))"
    using c by (auto simp: votes_of_def filter_empty_conv)
  then have pos: "0 < highest_votes cs"
    using votes_of_le_highest[of cs "landmark_identifier (candidate_reference c)"] by simp
  have "highest_votes cs \<in>
          insert 0 (set (map (\<lambda>c. votes_of cs (landmark_identifier (candidate_reference c))) cs))"
    unfolding highest_votes_def by (rule foldr_max_mem)
  then show ?thesis using pos by auto
qed

lemma highest_votes_Nil: "highest_votes [] = 0"
  by (simp add: highest_votes_def)

lemma votes_of_snoc:
  "votes_of (cs @ [m]) r =
     votes_of cs r + (if landmark_identifier (candidate_reference m) = r then 1 else 0)"
  by (simp add: votes_of_def)

lemma highest_votes_snoc:
  "highest_votes (cs @ [m]) =
     max (highest_votes cs) (votes_of cs (landmark_identifier (candidate_reference m)) + 1)"
proof (rule antisym)
  let ?r = "landmark_identifier (candidate_reference m)"
  from highest_votes_attained[of "cs @ [m]"] obtain c where
    c: "c \<in> set (cs @ [m])"
    "votes_of (cs @ [m]) (landmark_identifier (candidate_reference c)) = highest_votes (cs @ [m])"
    by auto
  show "highest_votes (cs @ [m]) \<le> max (highest_votes cs) (votes_of cs ?r + 1)"
    using c(2) votes_of_le_highest[of cs "landmark_identifier (candidate_reference c)"]
    by (auto simp: votes_of_snoc split: if_splits)
  have a: "votes_of cs ?r + 1 \<le> highest_votes (cs @ [m])"
    using votes_of_le_highest[of "cs @ [m]" ?r] by (simp add: votes_of_snoc)
  have b: "highest_votes cs \<le> highest_votes (cs @ [m])"
  proof (cases "cs = []")
    case True
    then show ?thesis by (simp add: highest_votes_Nil)
  next
    case False
    from highest_votes_attained[OF False] obtain d where
      d: "d \<in> set cs" "votes_of cs (landmark_identifier (candidate_reference d)) = highest_votes cs"
      by auto
    have "votes_of cs (landmark_identifier (candidate_reference d))
            \<le> votes_of (cs @ [m]) (landmark_identifier (candidate_reference d))"
      by (simp add: votes_of_snoc)
    then show ?thesis
      using d(2) votes_of_le_highest[of "cs @ [m]" "landmark_identifier (candidate_reference d)"]
      by simp
  qed
  show "max (highest_votes cs) (votes_of cs ?r + 1) \<le> highest_votes (cs @ [m])"
    using a b by simp
qed

lemma winner_alt: "winner cs = map_option (\<lambda>j. cs ! j) (find (reaches cs) [0..<length cs])"
  unfolding winner_def reaches_def ..

lemma find_snoc:
  "find Q (xs @ [y]) =
     (case find Q xs of None \<Rightarrow> (if Q y then Some y else None) | Some j \<Rightarrow> Some j)"
  by (induction xs) auto

lemma find_upt_Suc:
  "find Q [0..<Suc n] =
     (case find Q [0..<n] of None \<Rightarrow> (if Q n then Some n else None) | Some j \<Rightarrow> Some j)"
  using find_snoc[of Q "[0..<n]" n] by simp

lemma votes_of_take_le: "votes_of (take k cs) r \<le> votes_of cs r"
proof -
  have "votes_of cs r = votes_of (take k cs) r + votes_of (drop k cs) r"
    unfolding votes_of_def by (metis append_take_drop_id filter_append length_append)
  then show ?thesis by simp
qed

lemma reaches_snoc_old:
  assumes "j < length cs"
    and "votes_of cs (landmark_identifier (candidate_reference m)) + 1 \<le> highest_votes cs"
  shows "reaches (cs @ [m]) j = reaches cs j"
  using assms by (simp add: reaches_def highest_votes_snoc nth_append max_def)

lemma reaches_snoc_new_old:
  assumes "j < length cs"
    and "highest_votes cs < votes_of cs (landmark_identifier (candidate_reference m)) + 1"
  shows "\<not> reaches (cs @ [m]) j"
proof -
  have "votes_of (take (Suc j) cs) (landmark_identifier (candidate_reference (cs ! j)))
          \<le> highest_votes cs"
    using votes_of_take_le votes_of_le_highest le_trans by blast
  then show ?thesis
    using assms by (simp add: reaches_def highest_votes_snoc nth_append)
qed

lemma reaches_snoc_last:
  "reaches (cs @ [m]) (length cs) =
     (highest_votes cs \<le> votes_of cs (landmark_identifier (candidate_reference m)) + 1)"
  by (auto simp: reaches_def highest_votes_snoc votes_of_snoc)

lemma reaches_exists: "cs \<noteq> [] \<Longrightarrow> \<exists>j < length cs. reaches cs j"
proof (induction cs rule: rev_induct)
  case Nil
  then show ?case by simp
next
  case (snoc m cs)
  let ?v = "votes_of cs (landmark_identifier (candidate_reference m)) + 1"
  show ?case
  proof (cases "highest_votes cs < ?v")
    case True
    then have "reaches (cs @ [m]) (length cs)" by (simp add: reaches_snoc_last)
    then show ?thesis by auto
  next
    case False
    then have le: "?v \<le> highest_votes cs" by simp
    then have "cs \<noteq> []" by (auto simp: highest_votes_Nil)
    from snoc.IH[OF this] obtain j where j: "j < length cs" "reaches cs j" by blast
    then have "reaches (cs @ [m]) j" using reaches_snoc_old[OF j(1) le] by simp
    then show ?thesis using j(1) by (intro exI[of _ j]) simp
  qed
qed

lemma winner_snoc:
  "winner (cs @ [m]) =
     (if highest_votes cs < votes_of cs (landmark_identifier (candidate_reference m)) + 1
      then Some m else winner cs)"
proof (cases "highest_votes cs < votes_of cs (landmark_identifier (candidate_reference m)) + 1")
  case True
  have "find (reaches (cs @ [m])) [0..<length cs] = None"
    using reaches_snoc_new_old[OF _ True] by (simp add: find_None_iff)
  moreover have "reaches (cs @ [m]) (length cs)" using True by (simp add: reaches_snoc_last)
  ultimately have "find (reaches (cs @ [m])) [0..<Suc (length cs)] = Some (length cs)"
    unfolding find_upt_Suc by simp
  then show ?thesis using True by (simp add: winner_alt)
next
  case False
  then have le: "votes_of cs (landmark_identifier (candidate_reference m)) + 1 \<le> highest_votes cs"
    by simp
  then have ne: "cs \<noteq> []" by (auto simp: highest_votes_Nil)
  have same: "find (reaches (cs @ [m])) [0..<length cs] = find (reaches cs) [0..<length cs]"
    using reaches_snoc_old[OF _ le] by (intro find_cong) auto
  from reaches_exists[OF ne] obtain j where "j < length cs" "reaches cs j" by blast
  then have "find (reaches cs) [0..<length cs] \<noteq> None"
    by (auto simp: find_None_iff)
  then obtain i where i: "find (reaches cs) [0..<length cs] = Some i" by auto
  then have il: "i < length cs" by (auto simp: find_Some_iff)
  have "find (reaches (cs @ [m])) [0..<Suc (length cs)] = Some i"
    unfolding find_upt_Suc using same i by simp
  then show ?thesis using False i il by (simp add: winner_alt nth_append)
qed

lemma winner_Nil: "winner [] = None"
  by (simp add: winner_def)

lemma votes_pinned_step:
  assumes "votes_pinned msk pre (counts, match_best, count_best)"
  shows "votes_pinned msk (pre @ [m]) (count_votes msk [m] (counts, match_best, count_best))"
  using assms
  by (auto simp: votes_pinned_def unmasked_candidates_def Let_def votes_of_snoc
      highest_votes_snoc winner_snoc max_def)

lemma votes_pinned_run:
  "votes_pinned msk pre st \<Longrightarrow> votes_pinned msk (pre @ ms) (count_votes msk ms st)"
proof (induction ms arbitrary: pre st)
  case Nil
  then show ?case by simp
next
  case (Cons m ms)
  obtain counts match_best count_best where st: "st = (counts, match_best, count_best)"
    by (cases st) auto
  have "votes_pinned msk (pre @ [m]) (count_votes msk [m] st)"
    using Cons.prems votes_pinned_step unfolding st by blast
  from Cons.IH[OF this] show ?case
    using count_votes_append[of msk "[m]" ms st] by simp
qed

lemma getCorrespondenceNN_voted:
  assumes "cands \<noteq> []"
  shows "getCorrespondenceNN P cands msk =
           Inr (voted_correspondence P msk cands,
                case voted_correspondence P msk cands of
                  None \<Rightarrow> msk
                | Some c \<Rightarrow> insert (landmark_identifier (reference c)) msk)"
proof -
  obtain counts match_best count_best where
    run: "count_votes msk cands ({#}, None, 0) = (counts, match_best, count_best)"
    by (cases "count_votes msk cands ({#}, None, 0)") auto
  have "votes_pinned msk [] ({#}, None, 0)"
    by (simp add: votes_pinned_def unmasked_candidates_def highest_votes_Nil winner_Nil
        votes_of_def)
  from votes_pinned_run[OF this, of cands] run
  have pin: "count_best = highest_votes (unmasked_candidates msk cands)"
    "match_best = winner (unmasked_candidates msk cands)"
    by (simp_all add: votes_pinned_def)
  show ?thesis
    using assms run pin
    by (auto simp: getCorrespondenceNN_def voted_correspondence_def Let_def split: option.splits)
qed

lemma candidate_map_add_entries:
  assumes "sorted_wrt (<) ks" "k \<notin> set ks \<longrightarrow> f k = []"
  shows "candidate_map_add k c (entries f ks) =
           entries (\<lambda>x. if x = k then f k @ [c] else f x) (insert_key k ks)"
  using assms
proof (induction ks)
  case Nil
  then show ?case by (simp add: entries_def insert_key_def)
next
  case (Cons a ks)
  let ?g = "\<lambda>x. if x = k then f k @ [c] else f x"
  show ?case
  proof (cases "k = a")
    case True
    have "\<forall>x \<in> set ks. x \<noteq> a" using Cons.prems(1) by auto
    then have "map (\<lambda>x. (x, ?g x)) ks = map (\<lambda>x. (x, f x)) ks"
      using True by (intro map_cong) auto
    then show ?thesis using True by (simp add: entries_def insert_key_def)
  next
    case ne: False
    show ?thesis
    proof (cases "k < a")
      case True
      then have notin: "k \<notin> set (a # ks)" using Cons.prems(1) by auto
      then have fk: "f k = []" using Cons.prems(2) by simp
      have "map (\<lambda>x. (x, ?g x)) ks = map (\<lambda>x. (x, f x)) ks"
        using notin by (intro map_cong) auto
      then show ?thesis
        using True ne notin fk by (simp add: entries_def insert_key_def)
    next
      case False
      then have lt: "a < k" using ne by simp
      have IH: "candidate_map_add k c (entries f ks) = entries ?g (insert_key k ks)"
        using Cons.IH Cons.prems ne by simp
      have ik: "insert_key k (a # ks) = a # insert_key k ks"
        using lt ne by (auto simp: insert_key_def)
      have "candidate_map_add k c (entries f (a # ks)) =
              (a, f a) # candidate_map_add k c (entries f ks)"
        using lt ne by (simp add: entries_def)
      also have "\<dots> = (a, ?g a) # entries ?g (insert_key k ks)"
        using IH ne by simp
      also have "\<dots> = entries ?g (insert_key k (a # ks))"
        unfolding ik by (simp add: entries_def)
      finally show ?thesis .
    qed
  qed
qed

lemma insert_key_set: "set (insert_key k ks) = insert k (set ks)"
  by (auto simp: insert_key_def set_insort_key)

lemma insert_key_sorted:
  "sorted_wrt (<) ks \<Longrightarrow> sorted_wrt (<) (insert_key k ks)"
  by (auto simp: insert_key_def strict_sorted_iff sorted_insort distinct_insort)

lemma keys_after_sorted: "sorted_wrt (<) ks \<Longrightarrow> sorted_wrt (<) (keys_after ms ks)"
  by (induction ms ks rule: keys_after.induct) (simp_all add: insert_key_sorted)

lemma keys_after_set:
  "set (keys_after ms ks) = set ks \<union> (\<lambda>m. landmark_identifier (object_query m)) ` set ms"
  by (induction ms ks rule: keys_after.induct) (auto simp: insert_key_set)

lemma group_matches_entries:
  assumes "sorted_wrt (<) ks" "\<forall>k. k \<notin> set ks \<longrightarrow> f k = []"
  shows "group_matches ms (entries f ks) =
           entries (\<lambda>k. f k @ candidates_of ms k) (keys_after ms ks)"
  using assms
proof (induction ms arbitrary: f ks)
  case Nil
  then show ?case by (simp add: candidates_of_def)
next
  case (Cons m ms)
  let ?k = "landmark_identifier (object_query m)"
  let ?f = "\<lambda>x. if x = ?k then f ?k @ [candidate_of m] else f x"
  have step: "candidate_map_add ?k (candidate_of m) (entries f ks) = entries ?f (insert_key ?k ks)"
    using candidate_map_add_entries[OF Cons.prems(1), of ?k f "candidate_of m"] Cons.prems(2)
    by simp
  have s: "sorted_wrt (<) (insert_key ?k ks)" using Cons.prems(1) by (rule insert_key_sorted)
  have z: "\<forall>k. k \<notin> set (insert_key ?k ks) \<longrightarrow> ?f k = []"
    using Cons.prems(2) by (simp add: insert_key_set)
  have fun_eq: "(\<lambda>k. ?f k @ candidates_of ms k) = (\<lambda>k. f k @ candidates_of (m # ms) k)"
    by (auto simp: candidates_of_def fun_eq_iff)
  have "group_matches (m # ms) (entries f ks) =
          group_matches ms (candidate_map_add ?k (candidate_of m) (entries f ks))"
    by (simp add: candidate_of_def)
  also have "\<dots> = group_matches ms (entries ?f (insert_key ?k ks))"
    by (simp only: step)
  also have "\<dots> = entries (\<lambda>k. ?f k @ candidates_of ms k) (keys_after ms (insert_key ?k ks))"
    using Cons.IH[OF s z] .
  also have "\<dots> = entries (\<lambda>k. f k @ candidates_of (m # ms) k) (keys_after ms (insert_key ?k ks))"
    by (simp only: fun_eq)
  also have "\<dots> = entries (\<lambda>k. f k @ candidates_of (m # ms) k) (keys_after (m # ms) ks)"
    by simp
  finally show ?case .
qed

lemma keys_after_Nil: "keys_after ms [] = query_landmarks ms"
proof -
  have s1: "sorted_wrt (<) (keys_after ms [])" by (rule keys_after_sorted) simp
  have "set (keys_after ms []) = set (query_landmarks ms)"
    by (simp add: keys_after_set query_landmarks_def)
  moreover have "sorted (keys_after ms [])" "distinct (keys_after ms [])"
    using s1 by (simp_all add: strict_sorted_iff)
  moreover have "sorted (query_landmarks ms)" "distinct (query_landmarks ms)"
    by (simp_all add: query_landmarks_def)
  ultimately show ?thesis by (metis sorted_distinct_set_unique)
qed

lemma group_matches_grouped:
  "group_matches ms [] = entries (candidates_of ms) (query_landmarks ms)"
  using group_matches_entries[of "[]" "\<lambda>k. []" ms] by (simp add: entries_def keys_after_Nil)

lemma resolve_entries:
  assumes "\<forall>k \<in> set ks. candidates_of ms k \<noteq> []"
  shows "\<exists>msk'. resolve_correspondences P (entries (candidates_of ms) ks) cs msk =
           Inr (cs @ voted_correspondences P ms ks msk, msk')"
  using assms
proof (induction ks arbitrary: cs msk)
  case Nil
  then show ?case by (simp add: entries_def)
next
  case (Cons k ks)
  have ne: "candidates_of ms k \<noteq> []" using Cons.prems by simp
  note g = getCorrespondenceNN_voted[OF ne, of P msk]
  have rest: "\<forall>k \<in> set ks. candidates_of ms k \<noteq> []" using Cons.prems by simp
  show ?case
  proof (cases "voted_correspondence P msk (candidates_of ms k)")
    case None
    from Cons.IH[OF rest, of cs msk] obtain msk' where
      "resolve_correspondences P (entries (candidates_of ms) ks) cs msk =
         Inr (cs @ voted_correspondences P ms ks msk, msk')" by blast
    then show ?thesis using g None by (simp add: entries_def)
  next
    case (Some c)
    from Cons.IH[OF rest, of "cs @ [c]" "insert (landmark_identifier (reference c)) msk"]
    obtain msk' where
      "resolve_correspondences P (entries (candidates_of ms) ks) (cs @ [c])
         (insert (landmark_identifier (reference c)) msk) =
         Inr ((cs @ [c]) @ voted_correspondences P ms ks
                (insert (landmark_identifier (reference c)) msk), msk')" by blast
    then show ?thesis using g Some by (simp add: entries_def)
  qed
qed

lemma candidates_of_nonempty:
  "k \<in> set (query_landmarks ms) \<Longrightarrow> candidates_of ms k \<noteq> []"
  by (auto simp: query_landmarks_def candidates_of_def filter_empty_conv)

lemma resolve_grouped_voted:
  "\<exists>msk'. resolve_correspondences P (group_matches ms []) [] {} =
           Inr (voted_correspondences P ms (query_landmarks ms) {}, msk')"
  using resolve_entries[of "query_landmarks ms" ms P "[]" "{}"] candidates_of_nonempty
  by (simp add: group_matches_grouped)

lemma evaluate_reference_result:
  assumes "matches i = Some ms" "appearances q \<noteq> []" "i < length (added_local_maps s)"
  shows "\<exists>s'. evaluate_reference P q matches i s = Inr s' \<and>
           closures s' = closures s @ expected_closure P q (added_local_maps s) matches i \<and>
           added_local_maps s' = added_local_maps s \<and>
           place_database s' = place_database s \<and>
           getchar_calls s' =
             getchar_calls s + length (expected_closure P q (added_local_maps s) matches i)"
proof -
  obtain msk' where r: "resolve_correspondences P (group_matches ms []) [] {} =
      Inr (resolved_correspondences P ms, msk')"
    using resolve_grouped_voted unfolding resolved_correspondences_def by blast
  show ?thesis
    using assms r
    by (simp add: evaluate_reference_def expected_closure_def Let_def group_matches_length
        not_less)
qed

lemma evaluate_reference_unique:
  assumes "evaluate_reference P q matches i s = Inr s'"
  shows "\<exists>new. closures s' = closures s @ new \<and> list_all closure_unique new"
proof -
  have *: "resolve_correspondences P (group_matches ms []) [] {} = Inr (cs, msk') \<Longrightarrow>
        distinct (query_ids cs) \<and> distinct (reference_ids cs)" for ms cs msk'
    using resolve_grouped[of P ms] by auto
  show ?thesis
    using assms
    by (auto simp: evaluate_reference_def Let_def closure_unique_def
        split: option.splits if_splits sum.splits dest: *)
qed

lemma evaluate_references_unique:
  "evaluate_references P q matches is s = Inr s' \<Longrightarrow>
   \<exists>new. closures s' = closures s @ new \<and> list_all closure_unique new"
proof (induction "is" arbitrary: s)
  case Nil
  then show ?case by simp
next
  case (Cons i "is")
  from Cons.prems obtain s1 where s1: "evaluate_reference P q matches i s = Inr s1"
    and rest: "evaluate_references P q matches is s1 = Inr s'"
    by (auto split: sum.splits)
  from evaluate_reference_unique[OF s1] obtain new1 where
    n1: "closures s1 = closures s @ new1" "list_all closure_unique new1" by blast
  from Cons.IH[OF rest] obtain new2 where
    n2: "closures s' = closures s1 @ new2" "list_all closure_unique new2" by blast
  have "closures s' = closures s @ (new1 @ new2)" using n1 n2 by simp
  moreover have "list_all closure_unique (new1 @ new2)" using n1 n2 by simp
  ultimately show ?case by blast
qed

lemma detectClosures_unique:
  assumes "detectClosures matchAndAdd P lm s = Inr s'"
  shows "\<exists>new. closures s' = closures s @ new \<and> list_all closure_unique new"
proof (cases lm)
  case None
  then show ?thesis using assms by (auto simp: detectClosures_def)
next
  case (Some q)
  show ?thesis
  proof (cases "length (place_database s) < preliminary_minimum_interspace_queries P")
    case True
    then show ?thesis using assms Some by (auto simp: detectClosures_def)
  next
    case False
    then show ?thesis
      using assms Some evaluate_references_unique[of P q _ _ "s\<lparr>added_local_maps := added_local_maps s @ [q], place_database := place_database s @ [appearances q]\<rparr>" s']
      by (auto simp: detectClosures_def Let_def)
  qed
qed

lemma evaluate_references_result:
  assumes "\<forall>i \<in> set is. i \<in> dom matches \<and> i < length (added_local_maps s)"
    and "appearances q \<noteq> []"
  shows "\<exists>s'. evaluate_references P q matches is s = Inr s' \<and>
           closures s' = closures s @
             concat (map (expected_closure P q (added_local_maps s) matches) is) \<and>
           added_local_maps s' = added_local_maps s \<and>
           place_database s' = place_database s \<and>
           getchar_calls s' = getchar_calls s +
             length (concat (map (expected_closure P q (added_local_maps s) matches) is))"
  using assms
proof (induction "is" arbitrary: s)
  case Nil
  then show ?case by simp
next
  case (Cons i "is")
  from Cons.prems obtain ms where ms: "matches i = Some ms" and i: "i < length (added_local_maps s)"
    by auto
  from evaluate_reference_result[where matches = matches and i = i and P = P, OF ms Cons.prems(2) i]
  obtain s1 where s1:
    "evaluate_reference P q matches i s = Inr s1"
    "closures s1 = closures s @ expected_closure P q (added_local_maps s) matches i"
    "added_local_maps s1 = added_local_maps s"
    "place_database s1 = place_database s"
    "getchar_calls s1 =
       getchar_calls s + length (expected_closure P q (added_local_maps s) matches i)"
    by blast
  have "\<forall>i \<in> set is. i \<in> dom matches \<and> i < length (added_local_maps s1)"
    using Cons.prems(1) s1(3) by simp
  from Cons.IH[OF this Cons.prems(2)] obtain s' where s':
    "evaluate_references P q matches is s1 = Inr s'"
    "closures s' = closures s1 @
             concat (map (expected_closure P q (added_local_maps s1) matches) is)"
    "added_local_maps s' = added_local_maps s1"
    "place_database s' = place_database s1"
    "getchar_calls s' = getchar_calls s1 +
             length (concat (map (expected_closure P q (added_local_maps s1) matches) is))"
    by blast
  show ?case
    using s1 s' by simp
qed

lemma upt_2: "[0..<2] = [0, Suc 0]"
  by (simp add: upt_rec)

lemma warm_up_general:
  "length (place_database s) + length maps \<le> preliminary_minimum_interspace_queries P \<Longrightarrow>
   detectClosures_sequence matchAndAdd P maps s =
     Inr (s\<lparr>added_local_maps := added_local_maps s @ maps,
            place_database := place_database s @ map appearances maps\<rparr>)"
proof (induction maps arbitrary: s)
  case Nil
  then show ?case by simp
next
  case (Cons q qs)
  let ?s1 = "s\<lparr>added_local_maps := added_local_maps s @ [q],
               place_database := place_database s @ [appearances q]\<rparr>"
  have step: "detectClosures matchAndAdd P (Some q) s = Inr ?s1"
    using Cons.prems by (simp add: detectClosures_def)
  have "length (place_database ?s1) + length qs \<le> preliminary_minimum_interspace_queries P"
    using Cons.prems by simp
  from Cons.IH[OF this] show ?case
    using step by simp
qed

lemma map_sum_InrE: "map_sum f g r = Inr y \<Longrightarrow> \<exists>x. r = Inr x \<and> g x = y"
  by (cases r) auto

lemma example_contested_run:
  "map_sum id (map closure_summary \<circ> closures)
     (detectClosures example_contested_matcher example_parameters (Some example_query_map)
        example_relocalizer) = Inr [(3, 1, [1, 3], [7, 9], [2, 2])]"
  by (simp add: detectClosures_def example_parameters_def example_query_map_def
      example_relocalizer_def example_contested_matcher_def upt_2 evaluate_reference_def
      example_match_def example_landmark_def getCorrespondenceNN_def Let_def
      closure_summary_def query_ids_def reference_ids_def)

lemma example_contested_expected:
  "map closure_summary
     (expected_closure example_parameters example_query_map
        (added_local_maps example_relocalizer @ [example_query_map])
        (example_contested_matcher (place_database example_relocalizer)
           (appearances example_query_map) (maximum_descriptor_distance example_parameters)) 0)
   = [(3, 1, [1, 3], [7, 9], [2, 2])]"
  by (simp add: expected_closure_def resolved_correspondences_def query_landmarks_def
      candidates_of_def candidate_of_def voted_correspondence_def winner_def highest_votes_def
      votes_of_def unmasked_candidates_def closure_summary_def query_ids_def reference_ids_def
      example_parameters_def example_query_map_def example_relocalizer_def
      example_contested_matcher_def example_match_def example_landmark_def Let_def upt_rec)

lemma getCorrespondenceNN_mask_grows:
  "getCorrespondenceNN P matches msk = Inr (c, msk') \<Longrightarrow> msk \<subseteq> msk'"
  by (auto simp: getCorrespondenceNN_def split: if_splits prod.splits option.splits)

lemma resolve_correspondences_mask_grows:
  "resolve_correspondences P m cs msk = Inr (cs', msk') \<Longrightarrow> msk \<subseteq> msk'"
proof (induction m arbitrary: cs msk)
  case Nil
  then show ?case by simp
next
  case (Cons e m)
  from Cons.prems obtain c msk1 where
    step: "getCorrespondenceNN P (snd e) msk = Inr (c, msk1)"
    by (auto split: sum.splits)
  have "msk \<subseteq> msk1" using getCorrespondenceNN_mask_grows[OF step] .
  moreover have "msk1 \<subseteq> msk'"
    using Cons.prems step Cons.IH by (cases c) auto
  ultimately show ?case by simp
qed

subsection \<open>The claims\<close>

text \<open>
  C10. Calling \<open>detectClosures\<close> with a null local-map pointer returns at once: the list of
  added local maps, the place database, the pending closures and the used-reference mask
  (the whole state of the relocalizer) are what they were.
\<close>

theorem detectClosures_null_noop:
  "detectClosures matchAndAdd P None s = Inr s"
  by (simp add: detectClosures_def)

text \<open>
  C2. For a non-empty candidate list, \<open>_getCorrespondenceNN\<close> counts the reference
  identifiers of the candidates that the mask does not hold. When some count exceeds the
  minimum-votes threshold it returns the correspondence of a candidate \<open>m\<close> of the list
  whose reference is not masked and has the highest count, with that count as vote count,
  the count divided by the length of the whole list as confidence, and the reference
  added to the mask; otherwise it returns nothing and leaves the mask alone. In
  particular the candidates (L1,R1), (L1,R1), (L1,R2), with R1 and R2 of different
  identifiers, a threshold of 1 and an empty mask resolve to (L1,R1) with 2 votes and
  confidence 2/3.
\<close>

theorem getCorrespondenceNN_vote_resolution:
  assumes "matches \<noteq> []"
  shows "(let ids = unmasked_reference_ids msk matches in
          if \<exists>r \<in> set ids. minimum_matches_per_correspondence P < count_list ids r
          then \<exists>m \<in> set matches.
                 landmark_identifier (candidate_reference m) \<notin> msk \<and>
                 (\<forall>r. count_list ids r
                        \<le> count_list ids (landmark_identifier (candidate_reference m))) \<and>
                 getCorrespondenceNN P matches msk =
                   Inr (Some \<lparr>query = candidate_query m,
                              reference = candidate_reference m,
                              matching_count =
                                count_list ids (landmark_identifier (candidate_reference m)),
                              matching_ratio =
                                real (count_list ids (landmark_identifier (candidate_reference m)))
                                  / real (length matches)\<rparr>,
                        insert (landmark_identifier (candidate_reference m)) msk)
          else getCorrespondenceNN P matches msk = Inr (None, msk)) \<and>
         (\<forall>L1 R1 R2 d d' d''.
            landmark_identifier R1 \<noteq> landmark_identifier R2 \<and>
            minimum_matches_per_correspondence P = 1 \<longrightarrow>
            getCorrespondenceNN P
              [\<lparr>candidate_query = L1, candidate_reference = R1, candidate_distance = d\<rparr>,
               \<lparr>candidate_query = L1, candidate_reference = R1, candidate_distance = d'\<rparr>,
               \<lparr>candidate_query = L1, candidate_reference = R2, candidate_distance = d''\<rparr>] {} =
            Inr (Some \<lparr>query = L1, reference = R1, matching_count = 2, matching_ratio = 2 / 3\<rparr>,
                 {landmark_identifier R1}))"
proof -
  have "getCorrespondenceNN P
          [\<lparr>candidate_query = L1, candidate_reference = R1, candidate_distance = d\<rparr>,
           \<lparr>candidate_query = L1, candidate_reference = R1, candidate_distance = d'\<rparr>,
           \<lparr>candidate_query = L1, candidate_reference = R2, candidate_distance = d''\<rparr>] {} =
        Inr (Some \<lparr>query = L1, reference = R1, matching_count = 2, matching_ratio = 2 / 3\<rparr>,
             {landmark_identifier R1})"
    if "landmark_identifier R1 \<noteq> landmark_identifier R2"
      and "minimum_matches_per_correspondence P = 1" for L1 R1 R2 d d' d''
    using that by (simp add: getCorrespondenceNN_def Let_def)
  then show ?thesis
    using getCorrespondenceNN_general[OF assms, of msk P] by blast
qed

theorem getCorrespondenceNN_vote_resolution_witness:
  "getCorrespondenceNN example_parameters
     [example_candidate 1 7, example_candidate 1 7, example_candidate 1 8] {} =
   Inr (Some \<lparr>query = example_landmark 1, reference = example_landmark 7,
              matching_count = 2, matching_ratio = 2 / 3\<rparr>, {7})"
proof -
  have ne: "[example_candidate 1 7, example_candidate 1 7, example_candidate 1 8] \<noteq> []"
    by simp
  have ids: "landmark_identifier (example_landmark 7) \<noteq> landmark_identifier (example_landmark 8) \<and>
        minimum_matches_per_correspondence example_parameters = 1"
    by (simp add: example_landmark_def example_parameters_def)
  from getCorrespondenceNN_vote_resolution[OF ne, of "{}" example_parameters] ids
  have "getCorrespondenceNN example_parameters
          [\<lparr>candidate_query = example_landmark 1, candidate_reference = example_landmark 7,
            candidate_distance = 0\<rparr>,
           \<lparr>candidate_query = example_landmark 1, candidate_reference = example_landmark 7,
            candidate_distance = 0\<rparr>,
           \<lparr>candidate_query = example_landmark 1, candidate_reference = example_landmark 8,
            candidate_distance = 0\<rparr>] {} =
        Inr (Some \<lparr>query = example_landmark 1, reference = example_landmark 7,
                   matching_count = 2, matching_ratio = 2 / 3\<rparr>,
             {landmark_identifier (example_landmark 7)})"
    by blast
  then show ?thesis
    by (simp add: example_candidate_def example_landmark_def)
qed

text \<open>
  C1, as amended. The used-reference mask is cleared before the resolution of every
  surviving reference local map, not once per call, and only grows during a resolution.
  So the correspondences resolved for one reference local map (those of one closure) have
  pairwise different query landmarks and pairwise different reference landmarks, and the
  mask after the resolution holds exactly their reference identifiers; every closure that
  a call of \<open>detectClosures\<close> appends has this property. Correspondences of different
  closures of one call may share landmarks.
\<close>

theorem correspondences_unique_per_closure:
  "(\<forall>m cs msk cs' msk'.
      resolve_correspondences P m cs msk = Inr (cs', msk') \<longrightarrow> msk \<subseteq> msk') \<and>
   (\<forall>ms cs msk'.
      resolve_correspondences P (group_matches ms []) [] {} = Inr (cs, msk') \<longrightarrow>
        distinct (query_ids cs) \<and> distinct (reference_ids cs) \<and>
        msk' = set (reference_ids cs)) \<and>
   (detectClosures matchAndAdd P query_map s = Inr s' \<longrightarrow>
      (\<exists>new. closures s' = closures s @ new \<and> list_all closure_unique new))"
proof -
  have "distinct (query_ids cs) \<and> distinct (reference_ids cs) \<and> msk' = set (reference_ids cs)"
    if "resolve_correspondences P (group_matches ms []) [] {} = Inr (cs, msk')" for ms cs msk'
    using resolve_grouped[of P ms] that by auto
  then show ?thesis
    using resolve_correspondences_mask_grows[of P] detectClosures_unique[of matchAndAdd P query_map s s']
    by blast
qed

theorem correspondences_unique_per_closure_witness:
  "\<exists>s'. detectClosures example_contested_matcher example_parameters (Some example_query_map)
          example_relocalizer = Inr s' \<and>
        list_all closure_unique (closures s') \<and>
        map closure_summary (closures s') = [(3, 1, [1, 3], [7, 9], [2, 2])]"
proof -
  from map_sum_InrE[OF example_contested_run] obtain s' where
    run: "detectClosures example_contested_matcher example_parameters (Some example_query_map)
            example_relocalizer = Inr s'"
    and su: "map closure_summary (closures s') = [(3, 1, [1, 3], [7, 9], [2, 2])]"
    by auto
  have "\<exists>new. closures s' = closures example_relocalizer @ new \<and> list_all closure_unique new"
    using correspondences_unique_per_closure[of example_parameters example_contested_matcher
      "Some example_query_map" example_relocalizer s', THEN conjunct2, THEN conjunct2] run
    by simp
  then have "list_all closure_unique (closures s')"
    by (auto simp: example_relocalizer_def)
  then show ?thesis using run su by (intro exI[of _ s']) simp
qed

text \<open>
  The claim as stated (no two correspondences emitted by one call of \<open>detectClosures\<close>
  share a query or a reference landmark) fails: in the example both closures of the one
  call hold the correspondence of query landmark 1 with reference landmark 7.
\<close>

theorem correspondences_shared_across_closures:
  "map_sum id emitted_query_ids
     (detectClosures example_matcher example_parameters (Some (example_local_map 2))
        example_relocalizer) = Inr [1, 1] \<and>
   map_sum id emitted_reference_ids
     (detectClosures example_matcher example_parameters (Some (example_local_map 2))
        example_relocalizer) = Inr [7, 7]"
  by (simp add: detectClosures_def example_parameters_def example_local_map_def
      example_relocalizer_def example_matcher_def upt_2 evaluate_reference_def
      example_match_def example_landmark_def getCorrespondenceNN_def Let_def
      emitted_query_ids_def emitted_reference_ids_def query_ids_def reference_ids_def)

text \<open>
  C3. Warm-up: when at most as many local maps as the minimum interspace are passed to a
  freshly constructed relocalizer, every call only records the local map and adds its
  appearances to the place database. The list of pending closures stays empty and the
  result does not depend on the matcher, which is never asked.
\<close>

theorem warm_up_no_closures:
  assumes "length maps \<le> preliminary_minimum_interspace_queries P"
  shows "detectClosures_sequence matchAndAdd P maps Relocalizer_constructed =
     Inr \<lparr>added_local_maps = maps, place_database = map appearances maps, closures = [],
          mask_id_references_for_correspondences = {}, getchar_calls = 0\<rparr>"
  using warm_up_general[of Relocalizer_constructed maps P matchAndAdd] assms
  by (simp add: Relocalizer_constructed_def)

theorem warm_up_no_closures_witness:
  "detectClosures_sequence example_matcher example_parameters [example_local_map 0]
     Relocalizer_constructed =
   Inr \<lparr>added_local_maps = [example_local_map 0], place_database = [[0, 1]], closures = [],
        mask_id_references_for_correspondences = {}, getchar_calls = 0\<rparr>"
proof -
  have "length [example_local_map 0] \<le> preliminary_minimum_interspace_queries example_parameters"
    by (simp add: example_parameters_def)
  from warm_up_no_closures[OF this, of example_matcher] show ?thesis
    by (simp add: example_local_map_def)
qed

text \<open>
  C7. Query phase: the relocalizer's bookkeeping is consistent (as many added local maps
  as indexed ones), the database has reached the minimum interspace, the query has
  descriptors, and the matcher returns a match list for every eligible reference index.
  Then \<open>detectClosures\<close> returns, and the closures it appends are, in the order of the
  eligible references, one closure for each reference whose match ratio is at least the
  minimum ratio and whose matches come from at least the minimum number of distinct query
  landmarks, and none for the others. The closure carries the query and the reference
  local map, that number of distinct query landmarks, the ratio and the resolved
  correspondences: those voted for the query landmarks of the matches, visited in
  ascending order of their identifiers from an empty mask, each voted reference being
  masked for the query landmarks after it.
\<close>

theorem detectClosures_query_phase:
  assumes "length (added_local_maps s) = length (place_database s)"
    and "preliminary_minimum_interspace_queries P \<le> length (place_database s)"
    and "appearances q \<noteq> []"
    and "\<forall>i < Suc (length (place_database s)) - preliminary_minimum_interspace_queries P.
           i \<in> dom (matchAndAdd (place_database s) (appearances q)
                       (maximum_descriptor_distance P))"
  shows "\<exists>s'. detectClosures matchAndAdd P (Some q) s = Inr s' \<and>
           closures s' = closures s @
             concat (map (expected_closure P q (added_local_maps s @ [q])
                            (matchAndAdd (place_database s) (appearances q)
                               (maximum_descriptor_distance P)))
                       [0..<Suc (length (place_database s))
                              - preliminary_minimum_interspace_queries P])"
proof -
  let ?s2 = "s\<lparr>added_local_maps := added_local_maps s @ [q],
               place_database := place_database s @ [appearances q]\<rparr>"
  let ?m = "matchAndAdd (place_database s) (appearances q) (maximum_descriptor_distance P)"
  let ?is = "[0..<Suc (length (place_database s)) - preliminary_minimum_interspace_queries P]"
  have "\<forall>i \<in> set ?is. i \<in> dom ?m \<and> i < length (added_local_maps ?s2)"
    using assms(1,4) by auto
  from evaluate_references_result[OF this assms(3), of P] obtain s' where
    "evaluate_references P q ?m ?is ?s2 = Inr s'"
    "closures s' = closures ?s2 @ concat (map (expected_closure P q (added_local_maps ?s2) ?m) ?is)"
    by blast
  then show ?thesis
    using assms(2) by (simp add: detectClosures_def Let_def not_less)
qed

theorem detectClosures_query_phase_witness:
  "map_sum id (map closure_summary \<circ> closures)
     (detectClosures example_contested_matcher example_parameters (Some example_query_map)
        example_relocalizer) = Inr [(3, 1, [1, 3], [7, 9], [2, 2])]"
proof -
  let ?m = "example_contested_matcher (place_database example_relocalizer)
              (appearances example_query_map)
              (maximum_descriptor_distance example_parameters)"
  have h1: "length (added_local_maps example_relocalizer) =
            length (place_database example_relocalizer)"
    by (simp add: example_relocalizer_def)
  have h2: "preliminary_minimum_interspace_queries example_parameters
            \<le> length (place_database example_relocalizer)"
    by (simp add: example_relocalizer_def example_parameters_def)
  have h3: "appearances example_query_map \<noteq> []"
    by (simp add: example_query_map_def)
  have n: "Suc (length (place_database example_relocalizer))
             - preliminary_minimum_interspace_queries example_parameters = 2"
    by (simp add: example_relocalizer_def example_parameters_def)
  have h4: "\<forall>i < Suc (length (place_database example_relocalizer))
                   - preliminary_minimum_interspace_queries example_parameters. i \<in> dom ?m"
    unfolding n by (auto simp: example_contested_matcher_def less_Suc_eq numeral_2_eq_2)
  from detectClosures_query_phase[where matchAndAdd = example_contested_matcher, OF h1 h2 h3 h4]
  obtain s' where
    run: "detectClosures example_contested_matcher example_parameters (Some example_query_map)
            example_relocalizer = Inr s'"
    and cl: "closures s' = closures example_relocalizer @
       concat (map (expected_closure example_parameters example_query_map
                      (added_local_maps example_relocalizer @ [example_query_map]) ?m)
                 [0..<Suc (length (place_database example_relocalizer))
                        - preliminary_minimum_interspace_queries example_parameters])"
    by blast
  have e1: "expected_closure example_parameters example_query_map
              (added_local_maps example_relocalizer @ [example_query_map]) ?m (Suc 0) = []"
    by (simp add: expected_closure_def example_parameters_def example_query_map_def
        example_contested_matcher_def Let_def)
  have "map closure_summary (closures s') = [(3, 1, [1, 3], [7, 9], [2, 2])]"
    unfolding cl n upt_2 using example_contested_expected e1
    by (simp add: example_relocalizer_def)
  then show ?thesis using run by simp
qed

text \<open>
  C8. The claim that no core operation waits on external input fails for
  \<open>detectClosures\<close>: after every closure it appends it calls \<open>getchar()\<close>. In the
  example the one call appends two closures and has waited twice on the standard input
  when it returns.
\<close>

theorem detectClosures_waits_on_stdin:
  "map_sum id getchar_calls
     (detectClosures example_matcher example_parameters (Some (example_local_map 2))
        example_relocalizer) = Inr 2"
  by (simp add: detectClosures_def example_parameters_def example_local_map_def
      example_relocalizer_def example_matcher_def upt_2 evaluate_reference_def
      example_match_def example_landmark_def getCorrespondenceNN_def Let_def)

section \<open>Properties of the alignment engine\<close>

subsection \<open>Auxiliary facts\<close>

lemma omega_initial_eq:
  "omega_initial = (\<lambda>i j. if i = j \<and> i < 3 then (if i = 2 then 10 else 1) else 0)"
  by (auto simp: omega_initial_def set_coefficient_def matrix_identity_def fun_eq_iff)

lemma scale_scale: "matrix_scale c (matrix_scale k M) = matrix_scale (c * k) M"
  by (simp add: matrix_scale_def fun_eq_iff)

lemma scale_one: "matrix_scale 1 M = M"
  by (simp add: matrix_scale_def)

lemma scale_commute:
  "matrix_scale c (matrix_scale k M) = matrix_scale k (matrix_scale c M)"
  by (simp add: matrix_scale_def fun_eq_iff)

lemma same_geometry_refl: "same_geometry s s"
  by (simp add: same_geometry_def)

lemma same_geometry_trans: "same_geometry s t \<Longrightarrow> same_geometry t u \<Longrightarrow> same_geometry s u"
  by (simp add: same_geometry_def)

lemma observation_point_in_camera:
  assumes "observation a = observation c" "world_to_camera t = world_to_camera s"
  shows "point_in_camera t a = point_in_camera s c"
  using assms by (simp add: observation_def point_in_camera_def predicted_point_def)

lemma observation_residual:
  "observation a = observation c \<Longrightarrow> residual q a = residual q c"
  by (auto simp: observation_def residual_def)

lemma same_geometry_point:
  assumes "same_geometry s t" "i < length (activePoints (frame s))"
  shows "processed P t (activePoints (frame t) ! i) = processed P s (activePoints (frame s) ! i)"
    and "squared_residual t (activePoints (frame t) ! i) =
         squared_residual s (activePoints (frame s) ! i)"
proof -
  let ?a = "activePoints (frame t) ! i" and ?c = "activePoints (frame s) ! i"
  have len: "length (activePoints (frame t)) = length (activePoints (frame s))"
    using assms(1) unfolding same_geometry_def by (metis length_map)
  have obs: "observation ?a = observation ?c"
    using assms len unfolding same_geometry_def by (metis nth_map)
  have pc: "point_in_camera t ?a = point_in_camera s ?c"
    using observation_point_in_camera[OF obs] assms(1) by (simp add: same_geometry_def)
  have pim: "point_in_image t ?a = point_in_image s ?c"
    using pc assms(1) by (simp add: point_in_image_def same_geometry_def)
  show "processed P t ?a = processed P s ?c"
    using pc pim assms(1)
    by (simp add: processed_def depth_in_range_def in_image_def same_geometry_def)
  show "squared_residual t ?a = squared_residual s ?c"
    using pim observation_residual[OF obs] by (simp add: squared_residual_def)
qed

lemma observation_reprojection:
  "observation (fp\<lparr>reprojectionCoordinatesLeft := q\<rparr>) = observation fp"
  by (simp add: observation_def)

lemma map_observation_update:
  "i < length xs \<Longrightarrow>
   map observation (xs[i := (xs ! i)\<lparr>reprojectionCoordinatesLeft := q\<rparr>]) = map observation xs"
  by (simp add: map_update observation_reprojection list_update_same_conv)

lemma accumulate_fields:
  "frame (accumulate P i p e s) = frame s"
  "errors (accumulate P i p e s) = errors s"
  "inliers (accumulate P i p e s) = inliers s"
  "world_to_camera (accumulate P i p e s) = world_to_camera s"
  "camera_matrix (accumulate P i p e s) = camera_matrix s"
  "number_of_rows_image (accumulate P i p e s) = number_of_rows_image s"
  "number_of_cols_image (accumulate P i p e s) = number_of_cols_image s"
  "number_of_inliers (accumulate P i p e s) = number_of_inliers s"
  "number_of_outliers (accumulate P i p e s) = number_of_outliers s"
  by (simp_all add: accumulate_def Let_def)

lemma linearize_predicted_effect:
  assumes run: "linearize_predicted P ign i (activePoints (frame t) ! i) p t = Inr s'"
    and i: "i < length (activePoints (frame t))"
  defines "q \<equiv> project (camera_matrix t) p"
  defines "chi \<equiv> squared_norm (residual q (activePoints (frame t) ! i))"
  defines "proc \<equiv> 0 < p 2 \<and> p 2 \<le> maximum_depth_far_meters P \<and>
                   0 \<le> q 0 \<and> q 0 \<le> real (number_of_cols_image t) \<and>
                   0 \<le> q 1 \<and> q 1 \<le> real (number_of_rows_image t)"
  shows "same_geometry t s'"
    and "inliers s' =
           (if proc \<and> chi \<le> maximum_error_kernel P then (inliers t)[i := True] else inliers t)"
    and "errors s' = (if proc then (errors t)[i := chi] else errors t)"
    and "number_of_inliers s' =
           number_of_inliers t + (if proc \<and> chi \<le> maximum_error_kernel P then 1 else 0)"
    and "number_of_outliers s' =
           number_of_outliers t + (if proc \<and> chi > maximum_error_kernel P then 1 else 0)"
proof -
  show "same_geometry t s'"
    using run i
    by (auto simp: linearize_predicted_def Let_def same_geometry_def accumulate_fields
        map_observation_update split: if_splits)
  show "inliers s' =
           (if proc \<and> chi \<le> maximum_error_kernel P then (inliers t)[i := True] else inliers t)"
    using run
    by (auto simp: linearize_predicted_def Let_def accumulate_fields proc_def chi_def q_def
        split: if_splits)
  show "errors s' = (if proc then (errors t)[i := chi] else errors t)"
    using run
    by (auto simp: linearize_predicted_def Let_def accumulate_fields proc_def chi_def q_def
        split: if_splits)
  show "number_of_inliers s' =
           number_of_inliers t + (if proc \<and> chi \<le> maximum_error_kernel P then 1 else 0)"
    using run
    by (auto simp: linearize_predicted_def Let_def accumulate_fields proc_def chi_def q_def
        split: if_splits)
  show "number_of_outliers s' =
           number_of_outliers t + (if proc \<and> chi > maximum_error_kernel P then 1 else 0)"
    using run
    by (auto simp: linearize_predicted_def Let_def accumulate_fields proc_def chi_def q_def
        split: if_splits)
qed

lemma linearize_point_effect:
  assumes run: "linearize_point P ign i s = Inr s'"
    and i: "i < length (activePoints (frame s))"
  shows "same_geometry s s'"
    and "inliers s' = (inliers s)[i := is_inlier P s (activePoints (frame s) ! i)]"
    and "errors s' = (errors s)[i := recorded_error P s (activePoints (frame s) ! i)]"
    and "number_of_inliers s' =
           number_of_inliers s + (if is_inlier P s (activePoints (frame s) ! i) then 1 else 0)"
    and "number_of_outliers s' =
           number_of_outliers s + (if is_outlier P s (activePoints (frame s) ! i) then 1 else 0)"
proof -
  let ?fp = "activePoints (frame s) ! i"
  from run obtain w where w: "previous ?fp = Some w"
    by (auto simp: linearize_point_def Let_def split: if_splits option.splits)
  define t where "t = (if landmark_validated ?fp
       then s\<lparr>errors := (errors s)[i := - 1], inliers := (inliers s)[i := False],
              omega := omega_initial\<rparr>
       else s\<lparr>errors := (errors s)[i := - 1], inliers := (inliers s)[i := False],
              omega := matrix_scale (weight_framepoint P) omega_initial\<rparr>)"
  have t_fields: "frame t = frame s" "world_to_camera t = world_to_camera s"
    "camera_matrix t = camera_matrix s" "number_of_rows_image t = number_of_rows_image s"
    "number_of_cols_image t = number_of_cols_image s"
    "errors t = (errors s)[i := - 1]" "inliers t = (inliers s)[i := False]"
    "number_of_inliers t = number_of_inliers s" "number_of_outliers t = number_of_outliers s"
    by (simp_all add: t_def)
  have p: "predicted_point (world_to_camera s) ?fp w = point_in_camera s ?fp"
    by (simp add: point_in_camera_def w)
  have run': "linearize_predicted P ign i (activePoints (frame t) ! i) (point_in_camera s ?fp) t
                = Inr s'"
    using run w p unfolding t_fields(1)
    by (auto simp: linearize_point_def Let_def t_def split: if_splits)
  have it: "i < length (activePoints (frame t))" using i by (simp add: t_fields)
  note eff = linearize_predicted_effect[OF run' it]
  have proc: "(0 < point_in_camera s ?fp 2 \<and>
               point_in_camera s ?fp 2 \<le> maximum_depth_far_meters P \<and>
               0 \<le> project (camera_matrix t) (point_in_camera s ?fp) 0 \<and>
               project (camera_matrix t) (point_in_camera s ?fp) 0 \<le> real (number_of_cols_image t) \<and>
               0 \<le> project (camera_matrix t) (point_in_camera s ?fp) 1 \<and>
               project (camera_matrix t) (point_in_camera s ?fp) 1 \<le> real (number_of_rows_image t))
             = processed P s ?fp"
    by (simp add: processed_def depth_in_range_def in_image_def point_in_image_def t_fields)
  have chi: "squared_norm (residual (project (camera_matrix t) (point_in_camera s ?fp))
               (activePoints (frame t) ! i)) = squared_residual s ?fp"
    by (simp add: squared_residual_def point_in_image_def t_fields)
  have "same_geometry s t" by (simp add: same_geometry_def t_fields)
  then show "same_geometry s s'" using eff(1) same_geometry_trans by blast
  show "inliers s' = (inliers s)[i := is_inlier P s ?fp]"
    using eff(2) unfolding proc chi by (auto simp: t_fields is_inlier_def)
  show "errors s' = (errors s)[i := recorded_error P s ?fp]"
    using eff(3) unfolding proc chi by (auto simp: t_fields recorded_error_def)
  show "number_of_inliers s' = number_of_inliers s + (if is_inlier P s ?fp then 1 else 0)"
    using eff(4) unfolding proc chi by (auto simp: t_fields is_inlier_def)
  show "number_of_outliers s' = number_of_outliers s + (if is_outlier P s ?fp then 1 else 0)"
    using eff(5) unfolding proc chi by (auto simp: t_fields is_outlier_def)
qed

lemma linearize_points_effect:
  assumes "linearize_points P ign is s = Inr s'"
    and "\<forall>i \<in> set is. i < length (activePoints (frame s))"
    and "distinct is"
  shows "same_geometry s s' \<and>
         number_of_inliers s' = number_of_inliers s +
           length (filter (\<lambda>i. is_inlier P s (activePoints (frame s) ! i)) is) \<and>
         number_of_outliers s' = number_of_outliers s +
           length (filter (\<lambda>i. is_outlier P s (activePoints (frame s) ! i)) is) \<and>
         (\<forall>i \<in> set is. i < length (inliers s) \<and> i < length (errors s) \<and>
            inliers s' ! i = is_inlier P s (activePoints (frame s) ! i) \<and>
            errors s' ! i = recorded_error P s (activePoints (frame s) ! i)) \<and>
         (\<forall>j. j \<notin> set is \<longrightarrow> inliers s' ! j = inliers s ! j \<and> errors s' ! j = errors s ! j)"
  using assms
proof (induction "is" arbitrary: s)
  case Nil
  then show ?case by (simp add: same_geometry_refl)
next
  case (Cons i "is")
  from Cons.prems(1) obtain t where step: "linearize_point P ign i s = Inr t"
    and rest: "linearize_points P ign is t = Inr s'"
    by (auto split: sum.splits)
  have i: "i < length (activePoints (frame s))" using Cons.prems(2) by simp
  have bounds: "i < length (errors s)" "i < length (inliers s)"
    using step by (auto simp: linearize_point_def split: if_splits)
  note eff = linearize_point_effect[OF step i]
  have len: "length (activePoints (frame t)) = length (activePoints (frame s))"
    using eff(1) unfolding same_geometry_def by (metis length_map)
  have pt: "is_inlier P t (activePoints (frame t) ! j) = is_inlier P s (activePoints (frame s) ! j)"
    "is_outlier P t (activePoints (frame t) ! j) = is_outlier P s (activePoints (frame s) ! j)"
    "recorded_error P t (activePoints (frame t) ! j) =
       recorded_error P s (activePoints (frame s) ! j)"
    if "j < length (activePoints (frame s))" for j
    using same_geometry_point(1)[OF eff(1) that, of P] same_geometry_point(2)[OF eff(1) that]
    by (simp_all add: is_inlier_def is_outlier_def recorded_error_def)
  have prem2: "\<forall>j \<in> set is. j < length (activePoints (frame t))"
    using Cons.prems(2) len by simp
  have prem3: "distinct is" using Cons.prems(3) by simp
  note IH = Cons.IH[OF rest prem2 prem3]
  have f1: "filter (\<lambda>j. is_inlier P t (activePoints (frame t) ! j)) is =
            filter (\<lambda>j. is_inlier P s (activePoints (frame s) ! j)) is"
    using Cons.prems(2) pt(1) by (intro filter_cong) auto
  have f2: "filter (\<lambda>j. is_outlier P t (activePoints (frame t) ! j)) is =
            filter (\<lambda>j. is_outlier P s (activePoints (frame s) ! j)) is"
    using Cons.prems(2) pt(2) by (intro filter_cong) auto
  have notin: "i \<notin> set is" using Cons.prems(3) by simp
  have g: "same_geometry s s'" using eff(1) IH same_geometry_trans by blast
  have c1: "number_of_inliers s' = number_of_inliers s +
           length (filter (\<lambda>i. is_inlier P s (activePoints (frame s) ! i)) (i # is))"
    using IH eff(4) f1 by simp
  have c2: "number_of_outliers s' = number_of_outliers s +
           length (filter (\<lambda>i. is_outlier P s (activePoints (frame s) ! i)) (i # is))"
    using IH eff(5) f2 by simp
  have lens: "length (inliers t) = length (inliers s)" "length (errors t) = length (errors s)"
    using eff(1) by (simp_all add: same_geometry_def)
  have here: "inliers s' ! i = is_inlier P s (activePoints (frame s) ! i)"
    "errors s' ! i = recorded_error P s (activePoints (frame s) ! i)"
    using IH notin eff(2,3) bounds by simp_all
  have there: "j < length (inliers s) \<and> j < length (errors s) \<and>
            inliers s' ! j = is_inlier P s (activePoints (frame s) ! j) \<and>
            errors s' ! j = recorded_error P s (activePoints (frame s) ! j)" if "j \<in> set is" for j
    using IH that pt Cons.prems(2) lens by simp
  have other: "inliers s' ! j = inliers s ! j \<and> errors s' ! j = errors s ! j"
    if "j \<notin> set (i # is)" for j
    using IH that eff(2,3) by simp
  show ?case
    using g c1 c2 here there other bounds by auto
qed

lemma linearize_point_reduce:
  assumes "linearize_point P ign i s = Inr s'"
  shows "linearize_predicted P ign i (activePoints (frame s) ! i)
           (point_in_camera s (activePoints (frame s) ! i)) (point_start P i s) = Inr s'"
    and "i < length (errors s)" and "i < length (inliers s)"
proof -
  let ?fp = "activePoints (frame s) ! i"
  from assms obtain w where w: "previous ?fp = Some w"
    by (auto simp: linearize_point_def Let_def split: if_splits option.splits)
  have p: "predicted_point (world_to_camera s) ?fp w = point_in_camera s ?fp"
    by (simp add: point_in_camera_def w)
  show "linearize_predicted P ign i ?fp (point_in_camera s ?fp) (point_start P i s) = Inr s'"
    using assms w p
    by (auto simp: linearize_point_def Let_def point_start_def base_weight_def split: if_splits)
  show "i < length (errors s)" "i < length (inliers s)"
    using assms by (auto simp: linearize_point_def split: if_splits)
qed

lemma base_weight_scale:
  "base_weight P fp =
     matrix_scale (if landmark_validated fp then 1 else weight_framepoint P) omega_initial"
  by (simp add: base_weight_def scale_one)

lemma linearize_point_omega_factor:
  assumes run: "linearize_point P ign i s = Inr s'"
  shows "omega s' = matrix_scale (omega_factor P ign s (activePoints (frame s) ! i)) omega_initial"
proof -
  let ?fp = "activePoints (frame s) ! i"
  note red = linearize_point_reduce[OF run]
  have st: "camera_matrix (point_start P i s) = camera_matrix s"
    "number_of_cols_image (point_start P i s) = number_of_cols_image s"
    "number_of_rows_image (point_start P i s) = number_of_rows_image s"
    "omega (point_start P i s) =
       matrix_scale (if landmark_validated ?fp then 1 else weight_framepoint P) omega_initial"
    by (simp_all add: point_start_def base_weight_scale)
  show ?thesis
    using red(1)
    by (auto simp: linearize_predicted_def Let_def st is_outlier_def processed_def
        depth_in_range_def in_image_def point_in_image_def squared_residual_def
        accumulate_def omega_factor_def scale_scale scale_one mult_ac
        split: if_splits)
qed

lemma linearize_point_contribution:
  assumes run: "linearize_point P ign i s = Inr s'"
  defines "fp \<equiv> activePoints (frame s) ! i"
  shows "is_outlier P s fp \<and> ign \<longrightarrow>
           H_matrix s' = H_matrix s \<and> b_vector s' = b_vector s \<and> total_error s' = total_error s"
    and "is_outlier P s fp \<and> \<not> ign \<longrightarrow>
           H_matrix s' = matrix_add (H_matrix s)
             (contribution_H (point_jacobian P s fp)
                (matrix_scale (maximum_error_kernel P / squared_residual s fp)
                   (point_weight P s fp))) \<and>
           b_vector s' = vector_add (b_vector s)
             (contribution_b (point_jacobian P s fp)
                (matrix_scale (maximum_error_kernel P / squared_residual s fp)
                   (point_weight P s fp))
                (residual (point_in_image s fp) fp)) \<and>
           total_error s' = total_error s + squared_residual s fp"
    and "is_inlier P s fp \<longrightarrow>
           H_matrix s' = matrix_add (H_matrix s)
             (contribution_H (point_jacobian P s fp) (point_weight P s fp)) \<and>
           b_vector s' = vector_add (b_vector s)
             (contribution_b (point_jacobian P s fp) (point_weight P s fp)
                (residual (point_in_image s fp) fp)) \<and>
           total_error s' = total_error s + squared_residual s fp"
    and "\<not> processed P s fp \<longrightarrow>
           H_matrix s' = H_matrix s \<and> b_vector s' = b_vector s \<and> total_error s' = total_error s"
proof -
  note red = linearize_point_reduce[OF run, folded fp_def]
  have st: "camera_matrix (point_start P i s) = camera_matrix s"
    "number_of_cols_image (point_start P i s) = number_of_cols_image s"
    "number_of_rows_image (point_start P i s) = number_of_rows_image s"
    "H_matrix (point_start P i s) = H_matrix s" "b_vector (point_start P i s) = b_vector s"
    "total_error (point_start P i s) = total_error s"
    "omega (point_start P i s) = base_weight P fp"
    "length (errors (point_start P i s)) = length (errors s)"
    by (simp_all add: point_start_def fp_def)
  show "is_outlier P s fp \<and> ign \<longrightarrow>
           H_matrix s' = H_matrix s \<and> b_vector s' = b_vector s \<and> total_error s' = total_error s"
    using red(1)
    by (auto simp: linearize_predicted_def Let_def st is_outlier_def processed_def
        depth_in_range_def in_image_def point_in_image_def squared_residual_def
        split: if_splits)
  show "\<not> processed P s fp \<longrightarrow>
           H_matrix s' = H_matrix s \<and> b_vector s' = b_vector s \<and> total_error s' = total_error s"
    using red(1)
    by (auto simp: linearize_predicted_def Let_def st processed_def
        depth_in_range_def in_image_def point_in_image_def
        split: if_splits)
  show "is_outlier P s fp \<and> \<not> ign \<longrightarrow>
           H_matrix s' = matrix_add (H_matrix s)
             (contribution_H (point_jacobian P s fp)
                (matrix_scale (maximum_error_kernel P / squared_residual s fp)
                   (point_weight P s fp))) \<and>
           b_vector s' = vector_add (b_vector s)
             (contribution_b (point_jacobian P s fp)
                (matrix_scale (maximum_error_kernel P / squared_residual s fp)
                   (point_weight P s fp))
                (residual (point_in_image s fp) fp)) \<and>
           total_error s' = total_error s + squared_residual s fp"
    using red
    by (auto simp: linearize_predicted_def Let_def st is_outlier_def processed_def
        depth_in_range_def in_image_def point_in_image_def squared_residual_def
        accumulate_def contribution_H_def contribution_b_def point_jacobian_def
        point_weight_def scale_commute[of "depth_attenuation P (point_in_camera s fp 2)"]
        split: if_splits)
  show "is_inlier P s fp \<longrightarrow>
           H_matrix s' = matrix_add (H_matrix s)
             (contribution_H (point_jacobian P s fp) (point_weight P s fp)) \<and>
           b_vector s' = vector_add (b_vector s)
             (contribution_b (point_jacobian P s fp) (point_weight P s fp)
                (residual (point_in_image s fp) fp)) \<and>
           total_error s' = total_error s + squared_residual s fp"
    using red
    by (auto simp: linearize_predicted_def Let_def st is_inlier_def processed_def
        depth_in_range_def in_image_def point_in_image_def squared_residual_def
        accumulate_def contribution_H_def contribution_b_def point_jacobian_def
        point_weight_def
        split: if_splits)
qed

lemma linearize_point_jacobian:
  assumes run: "linearize_point P ign i s = Inr s'"
    and "processed P s (activePoints (frame s) ! i)"
    and "\<not> (ign \<and> is_outlier P s (activePoints (frame s) ! i))"
  shows "jacobian s' = point_jacobian P s (activePoints (frame s) ! i)"
proof -
  note red = linearize_point_reduce[OF run]
  have st: "camera_matrix (point_start P i s) = camera_matrix s"
    "number_of_cols_image (point_start P i s) = number_of_cols_image s"
    "number_of_rows_image (point_start P i s) = number_of_rows_image s"
    by (simp_all add: point_start_def)
  show ?thesis
    using red(1) assms(2,3)
    by (auto simp: linearize_predicted_def Let_def st is_outlier_def processed_def
        depth_in_range_def in_image_def point_in_image_def squared_residual_def
        accumulate_def point_jacobian_def split: if_splits)
qed

lemma length_filter_upt: "length (filter p [0..<n]) = card {i. i < n \<and> p i}"
proof -
  have "{i. i < length [0..<n] \<and> p ([0..<n] ! i)} = {i. i < n \<and> p i}" by auto
  then show ?thesis using length_filter_conv_card[of p "[0..<n]"] by simp
qed

lemma linearize_classification:
  assumes run: "linearize P ign s = Inr s'"
  defines "pts \<equiv> activePoints (frame s)"
  shows "same_geometry s s'"
    and "\<forall>i < length pts. inliers s' ! i = is_inlier P s (pts ! i) \<and>
           errors s' ! i = recorded_error P s (pts ! i)"
    and "number_of_inliers s' = card {i. i < length pts \<and> is_inlier P s (pts ! i)}"
    and "number_of_outliers s' = card {i. i < length pts \<and> is_outlier P s (pts ! i)}"
proof -
  define s0 where "s0 = s\<lparr>H_matrix := matrix_zero, b_vector := vector_zero,
          number_of_inliers := 0, number_of_outliers := 0, total_error := 0\<rparr>"
  have g0: "same_geometry s s0" by (simp add: same_geometry_def s0_def)
  have fr: "frame s0 = frame s" by (simp add: s0_def)
  have run0: "linearize_points P ign [0..<length (activePoints (frame s0))] s0 = Inr s'"
    using run by (simp add: linearize_def s0_def)
  have "\<forall>i \<in> set [0..<length (activePoints (frame s0))]. i < length (activePoints (frame s0))"
    by simp
  from linearize_points_effect[OF run0 this] have eff:
    "same_geometry s0 s'"
    "number_of_inliers s' = number_of_inliers s0 +
       length (filter (\<lambda>i. is_inlier P s0 (activePoints (frame s0) ! i))
                 [0..<length (activePoints (frame s0))])"
    "number_of_outliers s' = number_of_outliers s0 +
       length (filter (\<lambda>i. is_outlier P s0 (activePoints (frame s0) ! i))
                 [0..<length (activePoints (frame s0))])"
    "\<forall>i \<in> set [0..<length (activePoints (frame s0))].
        inliers s' ! i = is_inlier P s0 (activePoints (frame s0) ! i) \<and>
        errors s' ! i = recorded_error P s0 (activePoints (frame s0) ! i)"
    by simp_all
  have pt: "is_inlier P s0 fp = is_inlier P s fp" "is_outlier P s0 fp = is_outlier P s fp"
    "recorded_error P s0 fp = recorded_error P s fp" for fp
    by (simp_all add: is_inlier_def is_outlier_def recorded_error_def processed_def
        depth_in_range_def in_image_def point_in_image_def point_in_camera_def
        squared_residual_def s0_def)
  have n0: "number_of_inliers s0 = 0" "number_of_outliers s0 = 0" by (simp_all add: s0_def)
  show "same_geometry s s'" using g0 eff(1) same_geometry_trans by blast
  show "\<forall>i < length pts. inliers s' ! i = is_inlier P s (pts ! i) \<and>
           errors s' ! i = recorded_error P s (pts ! i)"
    using eff(4) by (simp add: pt fr pts_def)
  show "number_of_inliers s' = card {i. i < length pts \<and> is_inlier P s (pts ! i)}"
    using eff(2) by (simp add: pt fr pts_def length_filter_upt n0)
  show "number_of_outliers s' = card {i. i < length pts \<and> is_outlier P s (pts ! i)}"
    using eff(3) by (simp add: pt fr pts_def length_filter_upt n0)
qed

lemma card_partition:
  "card {i. i < n \<and> is_inlier P s (pts ! i)} + card {i. i < n \<and> is_outlier P s (pts ! i)}
     = card {i. i < (n::nat) \<and> processed P s (pts ! i)}"
proof -
  let ?A = "{i. i < n \<and> is_inlier P s (pts ! i)}" and ?B = "{i. i < n \<and> is_outlier P s (pts ! i)}"
  have fin: "finite ?A" "finite ?B" by simp_all
  have dis: "?A \<inter> ?B = {}" by (auto simp: is_inlier_def is_outlier_def)
  have un: "?A \<union> ?B = {i. i < n \<and> processed P s (pts ! i)}"
    by (auto simp: is_inlier_def is_outlier_def)
  show ?thesis using card_Un_disjoint[OF fin dis] un by simp
qed

lemma upt_3: "[0..<3] = [0, Suc 0, Suc (Suc 0)]"
  by (simp add: upt_rec)

lemmas example_aligner_defs =
  example_aligner_def example_frame_def example_point_def example_camera_def
  example_aligner_parameters_def transform_identity_def vector3_def

lemmas eigen_defs =
  matrix_zero_def vector_zero_def matrix_identity_def matrix_scale_def matrix_add_def
  matrix_product_def matrix_vector_def vector_add_def matrix_transpose_def squared_norm_def
  transform_point_def

lemma example_point0_run:
  "map_sum id classification (linearize_point example_aligner_parameters False 0 example_aligner)
   = Inr ([True, False, False], [0, 0, 0], 1, 0)"
  by (simp add: linearize_point_def linearize_predicted_def
      accumulate_def Let_def classification_def landmark_validated_def
      predicted_point_def project_def residual_def
      example_aligner_defs eigen_defs)

lemma example_point0_processed:
  "processed example_aligner_parameters example_aligner (activePoints (frame example_aligner) ! 0)"
  "\<not> is_outlier example_aligner_parameters example_aligner (activePoints (frame example_aligner) ! 0)"
  "point_in_camera example_aligner (activePoints (frame example_aligner) ! 0) = vector3 0 0 2"
  by (auto simp: processed_def is_outlier_def depth_in_range_def in_image_def point_in_image_def
      point_in_camera_def squared_residual_def predicted_point_def project_def residual_def
      example_aligner_defs eigen_defs fun_eq_iff)

lemma example_linearize:
  "map_sum id classification (linearize example_aligner_parameters False example_aligner)
   = Inr ([True, False, False], [0, 100, - 1], 1, 1)"
  by (simp add: linearize_def upt_3 linearize_point_def linearize_predicted_def
      accumulate_def Let_def classification_def landmark_validated_def
      predicted_point_def project_def residual_def
      example_aligner_defs eigen_defs)

lemma example_point2:
  "depth_in_range example_aligner_parameters example_aligner
     (activePoints (frame example_aligner) ! 2)"
  "squared_residual example_aligner (activePoints (frame example_aligner) ! 2) = 1 / 4"
  "\<not> processed example_aligner_parameters example_aligner
     (activePoints (frame example_aligner) ! 2)"
  by (simp_all add: processed_def depth_in_range_def in_image_def point_in_image_def
      point_in_camera_def squared_residual_def predicted_point_def project_def residual_def
      example_aligner_defs eigen_defs)

lemma example_point0_factor:
  "omega_factor example_aligner_parameters False example_aligner
     (activePoints (frame example_aligner) ! 0) = 3 / 50"
  by (simp add: omega_factor_def processed_def is_outlier_def depth_in_range_def in_image_def
      point_in_image_def point_in_camera_def squared_residual_def predicted_point_def
      project_def residual_def landmark_validated_def depth_attenuation_def
      example_aligner_defs eigen_defs)

lemmas example_converge_defs =
  example_converge_parameters_def example_solver_def example_retraction_def
  transform_compose_def matrix_subtract_def vector_negate_def

lemmas example_round_defs =
  oneRound_def linearize_def upt_3 linearize_point_def linearize_predicted_def
  accumulate_def Let_def convergence_summary_def landmark_validated_def
  predicted_point_def project_def residual_def
  example_aligner_defs eigen_defs example_converge_defs

lemma example_rounds_A:
  "(case oneRound example_solver example_retraction (example_converge_parameters 1 1000) False
           example_aligner of
      Inl e \<Rightarrow> False
    | Inr t \<Rightarrow>
        total_error t = 100 \<and>
        (case oneRound example_solver example_retraction (example_converge_parameters 1 1000) True t of
           Inl e \<Rightarrow> False
         | Inr s2 \<Rightarrow>
            (case oneRound example_solver example_retraction (example_converge_parameters 1 1000) True s2 of
               Inl e \<Rightarrow> False
             | Inr s3 \<Rightarrow>
                (case oneRound example_solver example_retraction (example_converge_parameters 1 1000) True s3 of
                   Inl e \<Rightarrow> False
                 | Inr s4 \<Rightarrow> convergence_summary s4 = (True, 0, 1, 1)))))"
  by (simp add: example_round_defs)

lemma shift:
  assumes "oneRound solve v2t P False s = Inr t"
  shows "rounds solve v2t P (Suc n) s = rounds solve v2t P n t"
    and "error_after solve v2t P e0 (Suc n) s = error_after solve v2t P (total_error t) n t"
    and "settled solve v2t P e0 (Suc (Suc n)) s = settled solve v2t P (total_error t) (Suc n) t"
    and "settled solve v2t P e0 (Suc 0) s
           = (error_delta_for_convergence P > \<bar>e0 - total_error t\<bar>)"
  using assms by (auto simp: error_after_def settled_def)

lemma converge_loop_settles:
  assumes "1 \<le> n" "iteration + n \<le> maximum_number_of_iterations P"
    and "rounds solve v2t P n s = Inr t"
    and "settled solve v2t P e0 n s"
    and "\<forall>k. 1 \<le> k \<and> k < n \<longrightarrow> \<not> settled solve v2t P e0 k s"
  shows "converge_loop solve v2t P iteration e0 s = polish solve v2t P t"
  using assms
proof (induction n arbitrary: iteration e0 s)
  case 0
  then show ?case by simp
next
  case (Suc n)
  from Suc.prems(3) obtain s1 where s1: "oneRound solve v2t P False s = Inr s1"
    by (auto split: sum.splits)
  note sh = shift[OF s1]
  have it: "iteration < maximum_number_of_iterations P" using Suc.prems(2) by simp
  show ?case
  proof (cases n)
    case 0
    then have "s1 = t" using Suc.prems(3) s1 by simp
    moreover have "error_delta_for_convergence P > \<bar>e0 - total_error s1\<bar>"
      using Suc.prems(4) 0 sh(4)[of e0] by simp
    ultimately show ?thesis
      using it s1 by (subst converge_loop.simps) (simp add: polish_def)
  next
    case (Suc m)
    have ns: "\<not> error_delta_for_convergence P > \<bar>e0 - total_error s1\<bar>"
      using Suc.prems(5)[rule_format, of 1] Suc sh(4)[of e0] by simp
    have last: "iteration \<noteq> maximum_number_of_iterations P - 1"
      using Suc.prems(2) Suc by simp
    have r: "rounds solve v2t P n s1 = Inr t" using Suc.prems(3) sh(1) by simp
    have st: "settled solve v2t P (total_error s1) n s1"
      using Suc.prems(4) Suc sh(3)[of e0 m] by simp
    have nst: "\<forall>k. 1 \<le> k \<and> k < n \<longrightarrow> \<not> settled solve v2t P (total_error s1) k s1"
    proof (intro allI impI)
      fix k assume k: "1 \<le> k \<and> k < n"
      then obtain j where j: "k = Suc j" by (cases k) auto
      have "\<not> settled solve v2t P e0 (Suc k) s" using Suc.prems(5) k by simp
      then show "\<not> settled solve v2t P (total_error s1) k s1"
        using sh(3)[of e0 j] j by simp
    qed
    have n1: "1 \<le> n" using Suc by simp
    have b: "(iteration + 1) + n \<le> maximum_number_of_iterations P" using Suc.prems(2) by simp
    from Suc.IH[OF n1 b r st nst]
    show ?thesis
      using it s1 ns last by (subst converge_loop.simps) simp
  qed
qed

lemma converge_loop_exhausts:
  assumes "1 \<le> n" "iteration + n = maximum_number_of_iterations P"
    and "rounds solve v2t P n s = Inr t"
    and "\<forall>k. 1 \<le> k \<and> k \<le> n \<longrightarrow> \<not> settled solve v2t P e0 k s"
  shows "converge_loop solve v2t P iteration e0 s = Inr (t\<lparr>has_system_converged := False\<rparr>)"
  using assms
proof (induction n arbitrary: iteration e0 s)
  case 0
  then show ?case by simp
next
  case (Suc n)
  from Suc.prems(3) obtain s1 where s1: "oneRound solve v2t P False s = Inr s1"
    by (auto split: sum.splits)
  note sh = shift[OF s1]
  have it: "iteration < maximum_number_of_iterations P" using Suc.prems(2) by simp
  have ns: "\<not> error_delta_for_convergence P > \<bar>e0 - total_error s1\<bar>"
    using Suc.prems(4)[rule_format, of 1] sh(4)[of e0] by simp
  show ?case
  proof (cases n)
    case 0
    then have t: "s1 = t" using Suc.prems(3) s1 by simp
    have last: "iteration = maximum_number_of_iterations P - 1"
      using Suc.prems(2) 0 by simp
    have stop: "\<not> iteration + 1 < maximum_number_of_iterations P"
      using Suc.prems(2) 0 by simp
    have "converge_loop solve v2t P (iteration + 1) (total_error s1)
            (s1\<lparr>has_system_converged := False\<rparr>) = Inr (s1\<lparr>has_system_converged := False\<rparr>)"
      using stop by (subst converge_loop.simps) simp
    then show ?thesis
      using it s1 ns last t by (subst converge_loop.simps) simp
  next
    case (Suc m)
    have last: "iteration \<noteq> maximum_number_of_iterations P - 1"
      using Suc.prems(2) Suc by simp
    have r: "rounds solve v2t P n s1 = Inr t" using Suc.prems(3) sh(1) by simp
    have nst: "\<forall>k. 1 \<le> k \<and> k \<le> n \<longrightarrow> \<not> settled solve v2t P (total_error s1) k s1"
    proof (intro allI impI)
      fix k assume k: "1 \<le> k \<and> k \<le> n"
      then obtain j where j: "k = Suc j" by (cases k) auto
      have "\<not> settled solve v2t P e0 (Suc k) s" using Suc.prems(4) k by simp
      then show "\<not> settled solve v2t P (total_error s1) k s1"
        using sh(3)[of e0 j] j by simp
    qed
    have n1: "1 \<le> n" using Suc by simp
    have b: "(iteration + 1) + n = maximum_number_of_iterations P" using Suc.prems(2) by simp
    from Suc.IH[OF n1 b r nst]
    show ?thesis
      using it s1 ns last by (subst converge_loop.simps) simp
  qed
qed

text \<open>
  With a positive iteration cap \<open>converge\<close> does what is said of it. When round \<open>n\<close> is
  the first to pass the convergence test, the result is that of the three polishing
  rounds after \<open>n\<close> rounds, with the information matrix recorded and the flag set; when no
  round up to the cap passes it, the result is the aligner after all rounds with the flag
  cleared; in both cases with the wrapped transforms updated.
\<close>

lemma converge_positive_cap:
  "(1 \<le> n \<and> n \<le> maximum_number_of_iterations P \<and>
    rounds solve v2t P n s = Inr t \<and> settled solve v2t P 0 n s \<and>
    (\<forall>k. 1 \<le> k \<and> k < n \<longrightarrow> \<not> settled solve v2t P 0 k s) \<longrightarrow>
      converge solve v2t P s = map_sum id update_wrapped (polish solve v2t P t)) \<and>
   (1 \<le> maximum_number_of_iterations P \<and>
    rounds solve v2t P (maximum_number_of_iterations P) s = Inr t \<and>
    (\<forall>k. 1 \<le> k \<and> k \<le> maximum_number_of_iterations P \<longrightarrow> \<not> settled solve v2t P 0 k s) \<longrightarrow>
      converge solve v2t P s = Inr (update_wrapped (t\<lparr>has_system_converged := False\<rparr>)))"
proof -
  have a: "converge solve v2t P s = map_sum id update_wrapped (polish solve v2t P t)"
    if "1 \<le> n" "n \<le> maximum_number_of_iterations P" "rounds solve v2t P n s = Inr t"
      "settled solve v2t P 0 n s" "\<forall>k. 1 \<le> k \<and> k < n \<longrightarrow> \<not> settled solve v2t P 0 k s"
  proof -
    have "0 + n \<le> maximum_number_of_iterations P" using that(2) by simp
    from converge_loop_settles[OF that(1) this that(3,4,5)]
    show ?thesis
      by (cases "polish solve v2t P t") (simp_all add: converge_def update_wrapped_def Let_def)
  qed
  have b: "converge solve v2t P s = Inr (update_wrapped (t\<lparr>has_system_converged := False\<rparr>))"
    if "1 \<le> maximum_number_of_iterations P"
      "rounds solve v2t P (maximum_number_of_iterations P) s = Inr t"
      "\<forall>k. 1 \<le> k \<and> k \<le> maximum_number_of_iterations P \<longrightarrow> \<not> settled solve v2t P 0 k s"
  proof -
    have "0 + maximum_number_of_iterations P = maximum_number_of_iterations P" by simp
    from converge_loop_exhausts[OF that(1) this that(2,3)]
    show ?thesis by (simp add: converge_def update_wrapped_def Let_def)
  qed
  show ?thesis using a b by blast
qed

lemma update_wrapped_fields:
  "camera_to_world (update_wrapped u) = transform_inverse (world_to_camera u)"
  "robot_to_world (update_wrapped u) =
     transform_compose (camera_to_world (update_wrapped u)) (robotToCamera (cameraLeft (frame u)))"
  "world_to_robot (update_wrapped u) = transform_inverse (robot_to_world (update_wrapped u))"
  "world_to_camera (update_wrapped u) = world_to_camera u"
  "has_system_converged (update_wrapped u) = has_system_converged u"
  "information_matrix (update_wrapped u) = information_matrix u"
  by (simp_all add: update_wrapped_def)

lemma converge_zero_cap:
  assumes "maximum_number_of_iterations P = 0"
  shows "converge solve v2t P s = Inr (update_wrapped s)"
proof -
  have "converge_loop solve v2t P 0 0 s = Inr s"
    using assms by (subst converge_loop.simps) simp
  then show ?thesis by (simp add: converge_def update_wrapped_def Let_def)
qed

subsection \<open>The claims\<close>

text \<open>
  C9. The weight matrix starts every point as the identity with its third diagonal entry
  set to 10. Whatever \<open>linearize\<close> does to a point afterwards only scales the matrix:
  when the loop body returns, the weight is the initial one times the fallback weight
  (for a point without validated landmark), the robust kernel (for an outlier that is not
  ignored) and the depth attenuation (for a processed point that is not an ignored
  outlier), so the depth entry is ten times each pixel entry.
\<close>

theorem omega_initial_weights:
  "omega_initial = (\<lambda>i j. if i = j \<and> i < 3 then (if i = 2 then 10 else 1) else 0) \<and>
   (linearize_point P ign i s = Inr s' \<longrightarrow>
      omega s' = matrix_scale (omega_factor P ign s (activePoints (frame s) ! i)) omega_initial \<and>
      omega s' 2 2 = 10 * omega s' 0 0 \<and> omega s' 2 2 = 10 * omega s' 1 1)"
proof -
  have eq: "omega_initial = (\<lambda>i j. if i = j \<and> i < 3 then (if i = 2 then 10 else 1) else 0)"
    by (rule omega_initial_eq)
  have "omega s' = matrix_scale (omega_factor P ign s (activePoints (frame s) ! i)) omega_initial \<and>
      omega s' 2 2 = 10 * omega s' 0 0 \<and> omega s' 2 2 = 10 * omega s' 1 1"
    if run: "linearize_point P ign i s = Inr s'"
  proof -
    note k = linearize_point_omega_factor[OF run]
    have "omega s' 2 2 = 10 * omega s' 0 0" "omega s' 2 2 = 10 * omega s' 1 1"
      unfolding k eq by (simp_all add: matrix_scale_def)
    then show ?thesis using k by blast
  qed
  then show ?thesis using eq by blast
qed

theorem omega_initial_weights_witness:
  "\<exists>s'. linearize_point example_aligner_parameters False 0 example_aligner = Inr s' \<and>
        omega s' 0 0 = 3 / 50 \<and> omega s' 1 1 = 3 / 50 \<and> omega s' 2 2 = 3 / 5 \<and>
        omega s' 0 1 = 0 \<and> omega_initial 2 2 = 10 \<and> omega_initial 0 0 = 1"
proof -
  from map_sum_InrE[OF example_point0_run] obtain s' where
    run: "linearize_point example_aligner_parameters False 0 example_aligner = Inr s'" by blast
  note th = omega_initial_weights[of example_aligner_parameters False 0 example_aligner s']
  have init: "omega_initial = (\<lambda>i j. if i = j \<and> i < 3 then (if i = 2 then 10 else 1) else 0)"
    using th by (rule conjunct1)
  have om: "omega s' = matrix_scale (3 / 50) omega_initial"
    using th run example_point0_factor by simp
  have "omega s' 0 0 = 3 / 50 \<and> omega s' 1 1 = 3 / 50 \<and> omega s' 2 2 = 3 / 5 \<and> omega s' 0 1 = 0"
    unfolding om init by (simp add: matrix_scale_def)
  moreover have "omega_initial 2 2 = 10 \<and> omega_initial 0 0 = 1"
    unfolding init by simp
  ultimately show ?thesis using run by blast
qed

text \<open>
  C6. The translation block (columns 0 to 2) of the transform Jacobian is the identity when
  the predicted depth is below the near-depth threshold and zero otherwise; the rotation
  block (columns 3 to 5) is minus two times the skew-symmetric matrix of the predicted
  point, whatever the depth. For a processed point that is not an ignored outlier, the
  Jacobian the loop body leaves is the product of the projection Jacobian, the camera
  matrix and this transform Jacobian at the point's prediction.
\<close>

theorem jacobian_transform_blocks:
  "block 0 0 (jacobian_transform P p) =
     (if p 2 < maximum_depth_near_meters P then matrix_identity 3 else matrix_zero) \<and>
   block 0 3 (jacobian_transform P p) = matrix_scale (- 2) (skew p) \<and>
   (linearize_point P ign i s = Inr s' \<and> processed P s (activePoints (frame s) ! i) \<and>
    \<not> (ign \<and> is_outlier P s (activePoints (frame s) ! i)) \<longrightarrow>
      jacobian s' =
        matrix_product
          (matrix_product
             (jacobian_projection
                (matrix_vector (camera_matrix s) (point_in_camera s (activePoints (frame s) ! i)))
                (point_in_camera s (activePoints (frame s) ! i) 2))
             (camera_matrix s))
          (jacobian_transform P (point_in_camera s (activePoints (frame s) ! i))))"
proof -
  have "block 0 0 (jacobian_transform P p) =
     (if p 2 < maximum_depth_near_meters P then matrix_identity 3 else matrix_zero)"
    by (auto simp: jacobian_transform_def block_def set_block_def matrix_identity_def
        matrix_zero_def fun_eq_iff)
  moreover have "block 0 3 (jacobian_transform P p) = matrix_scale (- 2) (skew p)"
    by (auto simp: jacobian_transform_def block_def set_block_def matrix_scale_def skew_def
        fun_eq_iff)
  ultimately show ?thesis
    using linearize_point_jacobian[of P ign i s s'] by (simp add: point_jacobian_def)
qed

theorem jacobian_transform_blocks_witness:
  "\<exists>s'. linearize_point example_aligner_parameters False 0 example_aligner = Inr s' \<and>
        block 0 0 (jacobian_transform example_aligner_parameters (vector3 0 0 2))
          = matrix_identity 3 \<and>
        jacobian s' 0 0 = 50 \<and> jacobian s' 0 4 = 200 \<and> jacobian s' 1 3 = - 200"
proof -
  from map_sum_InrE[OF example_point0_run] obtain s' where
    run: "linearize_point example_aligner_parameters False 0 example_aligner = Inr s'" by blast
  note th = jacobian_transform_blocks[of example_aligner_parameters "vector3 0 0 2" False 0
      example_aligner s']
  have b: "block 0 0 (jacobian_transform example_aligner_parameters (vector3 0 0 2))
          = matrix_identity 3"
    using th by (simp add: vector3_def example_aligner_parameters_def)
  have j: "jacobian s' =
        matrix_product
          (matrix_product
             (jacobian_projection
                (matrix_vector (camera_matrix example_aligner) (vector3 0 0 2))
                (vector3 0 0 2 2))
             (camera_matrix example_aligner))
          (jacobian_transform example_aligner_parameters (vector3 0 0 2))"
    using th run example_point0_processed by simp
  have "jacobian s' 0 0 = 50 \<and> jacobian s' 0 4 = 200 \<and> jacobian s' 1 3 = - 200"
    unfolding j
    by (simp add: jacobian_projection_def jacobian_transform_def set_block_def skew_def Let_def
        example_aligner_defs eigen_defs)
  then show ?thesis using run b by blast
qed

text \<open>
  C5, as amended. After \<open>linearize\<close>, every active point that is processed (predicted depth
  in (0, far limit] and projection within the image bounds) is marked inlier exactly when
  its squared residual is at most the kernel threshold, and its recorded error is that
  residual; a point that is not processed is not marked and its recorded error is -1.
  The inlier count is the number of processed points with a residual at most the
  threshold, the outlier count the number of those above it, and the two add up to the
  number of processed points. The loop body adds nothing to \<open>H\<close> and \<open>b\<close> for an outlier
  when outliers are ignored, and otherwise adds the point's terms with its weight scaled
  by threshold / chi.
\<close>

theorem linearize_partition:
  assumes "linearize P ign s = Inr s'"
  shows "(\<forall>i < length (activePoints (frame s)).
            processed P s (activePoints (frame s) ! i) \<longrightarrow>
              (inliers s' ! i \<longleftrightarrow>
                 squared_residual s (activePoints (frame s) ! i) \<le> maximum_error_kernel P) \<and>
              errors s' ! i = squared_residual s (activePoints (frame s) ! i)) \<and>
         (\<forall>i < length (activePoints (frame s)).
            \<not> processed P s (activePoints (frame s) ! i) \<longrightarrow>
              \<not> inliers s' ! i \<and> errors s' ! i = - 1) \<and>
         number_of_inliers s' =
           card {i. i < length (activePoints (frame s)) \<and>
                    is_inlier P s (activePoints (frame s) ! i)} \<and>
         number_of_outliers s' =
           card {i. i < length (activePoints (frame s)) \<and>
                    is_outlier P s (activePoints (frame s) ! i)} \<and>
         number_of_inliers s' + number_of_outliers s' =
           card {i. i < length (activePoints (frame s)) \<and>
                    processed P s (activePoints (frame s) ! i)} \<and>
         (\<forall>i t t'.
            linearize_point P ign i t = Inr t' \<and> is_outlier P t (activePoints (frame t) ! i) \<longrightarrow>
              (if ign
               then H_matrix t' = H_matrix t \<and> b_vector t' = b_vector t
               else H_matrix t' =
                      matrix_add (H_matrix t)
                        (contribution_H (point_jacobian P t (activePoints (frame t) ! i))
                           (matrix_scale
                              (maximum_error_kernel P
                                 / squared_residual t (activePoints (frame t) ! i))
                              (point_weight P t (activePoints (frame t) ! i)))) \<and>
                    b_vector t' =
                      vector_add (b_vector t)
                        (contribution_b (point_jacobian P t (activePoints (frame t) ! i))
                           (matrix_scale
                              (maximum_error_kernel P
                                 / squared_residual t (activePoints (frame t) ! i))
                              (point_weight P t (activePoints (frame t) ! i)))
                           (residual (point_in_image t (activePoints (frame t) ! i))
                              (activePoints (frame t) ! i)))))"
proof -
  note c = linearize_classification[OF assms]
  have a: "\<forall>i < length (activePoints (frame s)).
            processed P s (activePoints (frame s) ! i) \<longrightarrow>
              (inliers s' ! i \<longleftrightarrow>
                 squared_residual s (activePoints (frame s) ! i) \<le> maximum_error_kernel P) \<and>
              errors s' ! i = squared_residual s (activePoints (frame s) ! i)"
    using c(2) by (simp add: is_inlier_def recorded_error_def)
  have b: "\<forall>i < length (activePoints (frame s)).
            \<not> processed P s (activePoints (frame s) ! i) \<longrightarrow>
              \<not> inliers s' ! i \<and> errors s' ! i = - 1"
    using c(2) by (simp add: is_inlier_def recorded_error_def)
  have d: "number_of_inliers s' + number_of_outliers s' =
           card {i. i < length (activePoints (frame s)) \<and>
                    processed P s (activePoints (frame s) ! i)}"
    using c(3,4) card_partition[of "length (activePoints (frame s))" P s "activePoints (frame s)"]
    by simp
  have e: "if ign
           then H_matrix t' = H_matrix t \<and> b_vector t' = b_vector t
           else H_matrix t' =
                  matrix_add (H_matrix t)
                    (contribution_H (point_jacobian P t (activePoints (frame t) ! i))
                       (matrix_scale
                          (maximum_error_kernel P
                             / squared_residual t (activePoints (frame t) ! i))
                          (point_weight P t (activePoints (frame t) ! i)))) \<and>
                b_vector t' =
                  vector_add (b_vector t)
                    (contribution_b (point_jacobian P t (activePoints (frame t) ! i))
                       (matrix_scale
                          (maximum_error_kernel P
                             / squared_residual t (activePoints (frame t) ! i))
                          (point_weight P t (activePoints (frame t) ! i)))
                       (residual (point_in_image t (activePoints (frame t) ! i))
                          (activePoints (frame t) ! i)))"
    if "linearize_point P ign i t = Inr t'" "is_outlier P t (activePoints (frame t) ! i)"
    for i t t'
    using linearize_point_contribution(1,2)[OF that(1)] that(2) by (cases ign) simp_all
  show ?thesis
    using a b c(3,4) d e by blast
qed

theorem linearize_partition_witness:
  "\<exists>s'. linearize example_aligner_parameters False example_aligner = Inr s' \<and>
        \<not> inliers s' ! 2 \<and> errors s' ! 2 = - 1 \<and>
        number_of_inliers s' + number_of_outliers s' =
          card {i. i < length (activePoints (frame example_aligner)) \<and>
                   processed example_aligner_parameters example_aligner
                     (activePoints (frame example_aligner) ! i)}"
proof -
  from map_sum_InrE[OF example_linearize] obtain s' where
    run: "linearize example_aligner_parameters False example_aligner = Inr s'" by blast
  note th = linearize_partition[OF run]
  have len: "2 < length (activePoints (frame example_aligner))"
    by (simp add: example_aligner_defs)
  have "\<not> inliers s' ! 2 \<and> errors s' ! 2 = - 1"
    using th[THEN conjunct2, THEN conjunct1] len example_point2(3) by blast
  moreover have "number_of_inliers s' + number_of_outliers s' =
          card {i. i < length (activePoints (frame example_aligner)) \<and>
                   processed example_aligner_parameters example_aligner
                     (activePoints (frame example_aligner) ! i)}"
    using th by blast
  ultimately show ?thesis using run by blast
qed

text \<open>
  The claim as stated, for every point with a predicted depth in (0, far limit], fails:
  the third example point has depth 1 and a squared residual of 1/4, below the threshold
  of 9, and is neither marked inlier nor counted, since it projects outside the image.
  Three points have a depth in range; one inlier and one outlier are counted.
\<close>

theorem linearize_skips_points_outside_image:
  "depth_in_range example_aligner_parameters example_aligner
     (activePoints (frame example_aligner) ! 2) \<and>
   squared_residual example_aligner (activePoints (frame example_aligner) ! 2) = 1 / 4 \<and>
   maximum_error_kernel example_aligner_parameters = 9 \<and>
   length (filter (depth_in_range example_aligner_parameters example_aligner)
             (activePoints (frame example_aligner))) = 3 \<and>
   map_sum id classification (linearize example_aligner_parameters False example_aligner)
     = Inr ([True, False, False], [0, 100, - 1], 1, 1)"
proof -
  have "length (filter (depth_in_range example_aligner_parameters example_aligner)
             (activePoints (frame example_aligner))) = 3"
    by (simp add: depth_in_range_def point_in_camera_def predicted_point_def
        example_aligner_defs eigen_defs)
  moreover have "maximum_error_kernel example_aligner_parameters = 9"
    by (simp add: example_aligner_parameters_def)
  ultimately show ?thesis
    using example_point2(1,2) example_linearize by simp
qed

text \<open>
  C4. \<open>converge\<close> runs at most the configured number of rounds that keep outliers. When
  round \<open>n\<close> (at least one, at most the cap) is the first whose total error differs from
  that of the round before by less than the convergence threshold (the first round is
  compared with zero, the initial value of \<open>total_error_previous\<close>), \<open>converge\<close> runs
  exactly three more rounds that ignore outliers, records \<open>H\<close> as the information matrix
  and sets the flag. When no round up to the cap passes the test, the result is the aligner
  after all rounds with the flag false; under a cap of zero no round runs and the flag,
  which only \<open>converge\<close> writes, keeps its value, so there it must not have been set
  before. In every case the camera-to-world transform, the robot-to-world transform and
  its inverse are recomputed from the final world-to-camera estimate, which is left as it
  is, like the flag and the information matrix.
\<close>

theorem converge_rounds:
  "(1 \<le> n \<and> n \<le> maximum_number_of_iterations P \<and>
    rounds solve v2t P n s = Inr t \<and> settled solve v2t P 0 n s \<and>
    (\<forall>k. 1 \<le> k \<and> k < n \<longrightarrow> \<not> settled solve v2t P 0 k s) \<and>
    oneRound solve v2t P True t = Inr s2 \<and> oneRound solve v2t P True s2 = Inr s3 \<and>
    oneRound solve v2t P True s3 = Inr s4 \<longrightarrow>
      converge solve v2t P s =
        Inr (update_wrapped
               (s4\<lparr>information_matrix := H_matrix s4, has_system_converged := True\<rparr>))) \<and>
   (rounds solve v2t P (maximum_number_of_iterations P) s = Inr t \<and>
    (\<forall>k. 1 \<le> k \<and> k \<le> maximum_number_of_iterations P \<longrightarrow> \<not> settled solve v2t P 0 k s) \<and>
    (maximum_number_of_iterations P = 0 \<longrightarrow> \<not> has_system_converged s) \<longrightarrow>
      converge solve v2t P s = Inr (update_wrapped (t\<lparr>has_system_converged := False\<rparr>))) \<and>
   (maximum_number_of_iterations P = 0 \<longrightarrow> converge solve v2t P s = Inr (update_wrapped s)) \<and>
   camera_to_world (update_wrapped u) = transform_inverse (world_to_camera u) \<and>
   robot_to_world (update_wrapped u) =
     transform_compose (camera_to_world (update_wrapped u)) (robotToCamera (cameraLeft (frame u))) \<and>
   world_to_robot (update_wrapped u) = transform_inverse (robot_to_world (update_wrapped u)) \<and>
   world_to_camera (update_wrapped u) = world_to_camera u \<and>
   has_system_converged (update_wrapped u) = has_system_converged u \<and>
   information_matrix (update_wrapped u) = information_matrix u"
proof -
  have a: "1 \<le> n \<and> n \<le> maximum_number_of_iterations P \<and>
    rounds solve v2t P n s = Inr t \<and> settled solve v2t P 0 n s \<and>
    (\<forall>k. 1 \<le> k \<and> k < n \<longrightarrow> \<not> settled solve v2t P 0 k s) \<and>
    oneRound solve v2t P True t = Inr s2 \<and> oneRound solve v2t P True s2 = Inr s3 \<and>
    oneRound solve v2t P True s3 = Inr s4 \<longrightarrow>
      converge solve v2t P s =
        Inr (update_wrapped
               (s4\<lparr>information_matrix := H_matrix s4, has_system_converged := True\<rparr>))"
  proof (intro impI, elim conjE)
    assume h: "1 \<le> n" "n \<le> maximum_number_of_iterations P" "rounds solve v2t P n s = Inr t"
      "settled solve v2t P 0 n s" "\<forall>k. 1 \<le> k \<and> k < n \<longrightarrow> \<not> settled solve v2t P 0 k s"
      and p: "oneRound solve v2t P True t = Inr s2" "oneRound solve v2t P True s2 = Inr s3"
      "oneRound solve v2t P True s3 = Inr s4"
    have pol: "polish solve v2t P t =
            Inr (s4\<lparr>information_matrix := H_matrix s4, has_system_converged := True\<rparr>)"
      using p by (simp add: polish_def)
    have "converge solve v2t P s = map_sum id update_wrapped (polish solve v2t P t)"
      using converge_positive_cap[of n P solve v2t s t, THEN conjunct1] h by (elim impE) simp_all
    then show "converge solve v2t P s =
        Inr (update_wrapped
               (s4\<lparr>information_matrix := H_matrix s4, has_system_converged := True\<rparr>))"
      unfolding pol by simp
  qed
  have b: "rounds solve v2t P (maximum_number_of_iterations P) s = Inr t \<and>
    (\<forall>k. 1 \<le> k \<and> k \<le> maximum_number_of_iterations P \<longrightarrow> \<not> settled solve v2t P 0 k s) \<and>
    (maximum_number_of_iterations P = 0 \<longrightarrow> \<not> has_system_converged s) \<longrightarrow>
      converge solve v2t P s = Inr (update_wrapped (t\<lparr>has_system_converged := False\<rparr>))"
  proof (intro impI, elim conjE)
    assume r: "rounds solve v2t P (maximum_number_of_iterations P) s = Inr t"
      and ns: "\<forall>k. 1 \<le> k \<and> k \<le> maximum_number_of_iterations P \<longrightarrow> \<not> settled solve v2t P 0 k s"
      and z: "maximum_number_of_iterations P = 0 \<longrightarrow> \<not> has_system_converged s"
    show "converge solve v2t P s = Inr (update_wrapped (t\<lparr>has_system_converged := False\<rparr>))"
    proof (cases "maximum_number_of_iterations P = 0")
      case True
      then have ts: "t = s" using r by simp
      have "s\<lparr>has_system_converged := has_system_converged s\<rparr> = s" by simp
      then have "s\<lparr>has_system_converged := False\<rparr> = s" using z True by simp
      then show ?thesis using converge_zero_cap[OF True, of solve v2t s] ts by simp
    next
      case False
      then have "1 \<le> maximum_number_of_iterations P" by simp
      then show ?thesis
        using converge_positive_cap[of n P solve v2t s t, THEN conjunct2] r ns
        by (elim impE) simp_all
    qed
  qed
  have c: "maximum_number_of_iterations P = 0 \<longrightarrow> converge solve v2t P s = Inr (update_wrapped s)"
    using converge_zero_cap[of P solve v2t s] by (intro impI)
  show ?thesis
    by (intro conjI a b c update_wrapped_fields)
qed

theorem converge_rounds_witness:
  "map_sum id convergence_summary
     (converge example_solver example_retraction (example_converge_parameters 1 1000)
        example_aligner) = Inr (True, 0, 1, 1)"
proof -
  let ?P = "example_converge_parameters 1 1000"
  from example_rounds_A obtain t s2 s3 s4 where
    r1: "oneRound example_solver example_retraction ?P False example_aligner = Inr t"
    and te: "total_error t = 100"
    and r2: "oneRound example_solver example_retraction ?P True t = Inr s2"
    and r3: "oneRound example_solver example_retraction ?P True s2 = Inr s3"
    and r4: "oneRound example_solver example_retraction ?P True s3 = Inr s4"
    and su: "convergence_summary s4 = (True, 0, 1, 1)"
    by (auto split: sum.splits)
  have cap: "maximum_number_of_iterations ?P = 1" "error_delta_for_convergence ?P = 1000"
    by (simp_all add: example_converge_parameters_def)
  have rounds1: "rounds example_solver example_retraction ?P 1 example_aligner = Inr t"
    using r1 by simp
  have set1: "settled example_solver example_retraction ?P 0 1 example_aligner"
    using rounds1 te cap by (simp add: settled_def error_after_def)
  have none: "\<forall>k. 1 \<le> k \<and> k < (1::nat) \<longrightarrow>
                \<not> settled example_solver example_retraction ?P 0 k example_aligner"
    by simp
  have "converge example_solver example_retraction ?P example_aligner =
          Inr (update_wrapped
                 (s4\<lparr>information_matrix := H_matrix s4, has_system_converged := True\<rparr>))"
    using converge_rounds[of 1 ?P example_solver example_retraction example_aligner t s2 s3 s4,
        THEN conjunct1] cap rounds1 set1 none r2 r3 r4 by (elim impE) simp_all
  then show ?thesis
    using su by (simp add: convergence_summary_def update_wrapped_def)
qed

end
